theory Spec2Isabelle
  imports Main "HOL-Library.Multiset"
begin

section \<open>The board\<close>

text \<open>
  A \<open>Grid\<close> of the source is a list of rows, each a list of Python integers; \<open>0\<close> marks
  an empty cell. The source reads \<open>grid[r][c]\<close> and writes \<open>grid[r][c] = v\<close> with
  \<open>r\<close> and \<open>c\<close> taken from \<open>range(9)\<close> only, so both are in range exactly on the
  boards of nine rows of nine cells, which \<open>wf_grid\<close> describes; every statement
  below about reading or writing a board carries that shape as its hypothesis. The rows
  are taken to be nine separate lists, as \<open>copy_grid\<close> and \<open>read_grid_from_stdin\<close>
  build them, so a write to one row is not seen through another.
\<close>

type_synonym grid = "int list list"

definition wf_grid :: "grid \<Rightarrow> bool" where
  "wf_grid g \<longleftrightarrow> length g = 9 \<and> list_all (\<lambda>row. length row = 9) g"

definition cell :: "grid \<Rightarrow> nat \<Rightarrow> nat \<Rightarrow> int" where
  "cell g r c = g ! r ! c"

definition put :: "grid \<Rightarrow> nat \<Rightarrow> nat \<Rightarrow> int \<Rightarrow> grid" where
  "put g r c v = g[r := (g ! r)[c := v]]"

section \<open>Candidate engine\<close>

text \<open>
  Python's sets of integers are sets of \<open>int\<close>; \<open>range(1, 10)\<close> is the list
  \<open>[1..9]\<close>, and \<open>//\<close> on the natural numbers that index the board is \<open>div\<close>.
\<close>

definition row_vals :: "grid \<Rightarrow> nat \<Rightarrow> int set" where
  "row_vals g r = set (g ! r) - {0}"

definition col_vals :: "grid \<Rightarrow> nat \<Rightarrow> int set" where
  "col_vals g c = set [cell g r c. r \<leftarrow> [0..<9]] - {0}"

definition box_vals :: "grid \<Rightarrow> nat \<Rightarrow> nat \<Rightarrow> int set" where
  "box_vals g r c =
     (let br = (r div 3) * 3; bc = (c div 3) * 3
      in set [cell g rr cc. rr \<leftarrow> [br..<br + 3], cc \<leftarrow> [bc..<bc + 3]] - {0})"

definition candidates :: "grid \<Rightarrow> nat \<Rightarrow> nat \<Rightarrow> int set" where
  "candidates g r c =
     (if cell g r c \<noteq> 0 then {}
      else let used = row_vals g r \<union> col_vals g c \<union> box_vals g r c
           in {d \<in> set [1..9]. d \<notin> used})"

section \<open>MRV selector\<close>

text \<open>
  The two nested \<open>for\<close> loops of \<open>find_mrv_cell\<close> visit the coordinates in row-major
  order; \<open>scan_order\<close> is that sequence. The loop state is the pair of variables
  \<open>best\<close> and \<open>best_cands\<close>, which the source sets together: \<open>None\<close> while both are
  \<open>None\<close>. A \<open>return\<close> inside the loop ends the recursion.
\<close>

definition scan_order :: "(nat \<times> nat) list" where
  "scan_order = [(r, c). r \<leftarrow> [0..<9], c \<leftarrow> [0..<9]]"

fun mrv_scan :: "grid \<Rightarrow> (nat \<times> nat) list \<Rightarrow> (nat \<times> nat \<times> int set) option
    \<Rightarrow> (nat \<times> nat \<times> int set) option" where
  "mrv_scan g [] best = best"
| "mrv_scan g ((r, c) # rest) best =
     (if cell g r c = 0 then
        (let cands = candidates g r c in
         if cands = {} then Some (r, c, {})
         else if (case best of None \<Rightarrow> True
                  | Some (br, bc, best_cands) \<Rightarrow> card cands < card best_cands)
         then (if card cands = 1 then Some (r, c, cands)
               else mrv_scan g rest (Some (r, c, cands)))
         else mrv_scan g rest best)
      else mrv_scan g rest best)"

definition find_mrv_cell :: "grid \<Rightarrow> (nat \<times> nat \<times> int set) option" where
  "find_mrv_cell g = mrv_scan g scan_order None"

section \<open>Validator\<close>

text \<open>
  Each of the three loops of \<open>is_valid_grid\<close> is a \<open>list_all\<close> over its range; the
  body collects the nonzero values of one row, column or box in \<open>vals\<close>, and the
  function returns \<open>False\<close> as soon as \<open>len(vals) != len(set(vals))\<close>.
  \<open>box_cells br bc\<close> are the coordinates that the two inner loops of the third part
  visit.
\<close>

definition box_cells :: "nat \<Rightarrow> nat \<Rightarrow> (nat \<times> nat) list" where
  "box_cells br bc = [(r, c). r \<leftarrow> [br..<br + 3], c \<leftarrow> [bc..<bc + 3]]"

definition is_valid_grid :: "grid \<Rightarrow> bool" where
  "is_valid_grid g \<longleftrightarrow>
     list_all (\<lambda>r. let vals = [v \<leftarrow> g ! r. v \<noteq> 0]
                   in \<not> length vals \<noteq> card (set vals)) [0..<9]
   \<and> list_all (\<lambda>c. let vals = [cell g r c. r \<leftarrow> [0..<9], cell g r c \<noteq> 0]
                   in \<not> length vals \<noteq> card (set vals)) [0..<9]
   \<and> list_all (\<lambda>br. list_all (\<lambda>bc.
          let vals = [cell g r c. (r, c) \<leftarrow> box_cells br bc, cell g r c \<noteq> 0]
          in \<not> length vals \<noteq> card (set vals)) [0, 3, 6]) [0, 3, 6]"

section \<open>Backtracking search\<close>

text \<open>
  \<open>solve\<close> mutates the board and returns a flag; the model returns the flag together
  with the board as the call leaves it. The first argument bounds the depth of nested
  calls of \<open>solve\<close>: a call with bound \<open>0\<close> does not return, a call with bound
  \<open>Suc n\<close> makes its recursive calls with bound \<open>n\<close>. \<open>try_cands\<close> is the
  \<open>for d in sorted(cands)\<close> loop, run on the board in its current state.
\<close>

fun solve :: "nat \<Rightarrow> grid \<Rightarrow> (bool \<times> grid) option"
  and try_cands :: "nat \<Rightarrow> grid \<Rightarrow> nat \<Rightarrow> nat \<Rightarrow> int list \<Rightarrow> (bool \<times> grid) option" where
  "solve 0 g = None"
| "solve (Suc n) g =
     (case find_mrv_cell g of
        None \<Rightarrow> Some (True, g)
      | Some (r, c, cands) \<Rightarrow>
          if cands = {} then Some (False, g)
          else try_cands n g r c (sorted_list_of_set cands))"
| "try_cands n g r c [] = Some (False, g)"
| "try_cands n g r c (d # ds) =
     (case solve n (put g r c d) of
        None \<Rightarrow> None
      | Some (True, g') \<Rightarrow> Some (True, g')
      | Some (False, g') \<Rightarrow> try_cands n (put g' r c 0) r c ds)"


text \<open>
  \<open>count_empty\<close> is the number of zero cells of a board. \<open>solve_calls n g\<close> lists, in
  order, the boards on which the call \<open>solve (Suc n) g\<close> itself calls \<open>solve\<close>: one
  per iteration of the candidate loop that is reached.
\<close>

definition count_empty :: "grid \<Rightarrow> nat" where
  "count_empty g = length [p \<leftarrow> scan_order. cell g (fst p) (snd p) = 0]"

fun loop_calls :: "nat \<Rightarrow> grid \<Rightarrow> nat \<Rightarrow> nat \<Rightarrow> int list \<Rightarrow> grid list" where
  "loop_calls n g r c [] = []"
| "loop_calls n g r c (d # ds) =
     put g r c d #
     (case solve n (put g r c d) of
        Some (False, g') \<Rightarrow> loop_calls n (put g' r c 0) r c ds
      | _ \<Rightarrow> [])"

definition solve_calls :: "nat \<Rightarrow> grid \<Rightarrow> grid list" where
  "solve_calls n g =
     (case find_mrv_cell g of
        None \<Rightarrow> []
      | Some (r, c, cands) \<Rightarrow>
          if cands = {} then [] else loop_calls n g r c (sorted_list_of_set cands))"

section \<open>Example boards\<close>

text \<open>
  \<open>blocked_grid\<close> has no duplicate, yet its cells \<open>(0,0)\<close> and \<open>(1,0)\<close> both admit
  the digit 9 only and share a column: the search places 9 in the first, finds the second
  without candidates, and gives up.
\<close>

definition blocked_grid :: grid where
  "blocked_grid =
    [[0,1,2,3,4,5,6,7,8],
     [0,4,5,6,7,8,1,2,3],
     [0,0,0,0,0,0,0,0,0],
     [0,0,0,0,0,0,0,0,0],
     [0,0,0,0,0,0,0,0,0],
     [0,0,0,0,0,0,0,0,0],
     [0,0,0,0,0,0,0,0,0],
     [0,0,0,0,0,0,0,0,0],
     [0,0,0,0,0,0,0,0,0]]"

text \<open>
  \<open>solved_board\<close> is a completed Sudoku and \<open>near_solved\<close> the same board with the
  cells \<open>(0,2)\<close> and \<open>(4,4)\<close> emptied. \<open>all_fives\<close> is full but breaks every
  constraint. \<open>empty_board\<close> has no clue. In \<open>singleton_first_grid\<close> the first empty
  cell \<open>(0,0)\<close> has the single candidate 1, while the later empty cells \<open>(8,0)\<close> and
  \<open>(8,1)\<close> have no candidate at all. \<open>off_range_board\<close> is \<open>solved_board\<close> with
  15 in place of the 5 of its first cell: full, without duplicate, and not a Sudoku.
\<close>

definition solved_board :: grid where
  "solved_board =
    [[5,3,4,6,7,8,9,1,2],
     [6,7,2,1,9,5,3,4,8],
     [1,9,8,3,4,2,5,6,7],
     [8,5,9,7,6,1,4,2,3],
     [4,2,6,8,5,3,7,9,1],
     [7,1,3,9,2,4,8,5,6],
     [9,6,1,5,3,7,2,8,4],
     [2,8,7,4,1,9,6,3,5],
     [3,4,5,2,8,6,1,7,9]]"

definition near_solved :: grid where
  "near_solved =
    [[5,3,0,6,7,8,9,1,2],
     [6,7,2,1,9,5,3,4,8],
     [1,9,8,3,4,2,5,6,7],
     [8,5,9,7,6,1,4,2,3],
     [4,2,6,8,0,3,7,9,1],
     [7,1,3,9,2,4,8,5,6],
     [9,6,1,5,3,7,2,8,4],
     [2,8,7,4,1,9,6,3,5],
     [3,4,5,2,8,6,1,7,9]]"

definition all_fives :: grid where
  "all_fives = replicate 9 (replicate 9 5)"

definition empty_board :: grid where
  "empty_board = replicate 9 (replicate 9 0)"

definition singleton_first_grid :: grid where
  "singleton_first_grid =
    [[0,2,3,4,5,6,7,8,9],
     [0,0,0,0,0,0,0,0,0],
     [0,0,0,0,0,0,0,0,0],
     [0,0,0,0,0,0,0,0,0],
     [0,0,0,0,0,0,0,0,0],
     [0,0,0,0,0,0,0,0,0],
     [8,0,0,0,0,0,0,0,0],
     [9,0,0,0,0,0,0,0,0],
     [0,0,1,2,3,4,5,6,7]]"

definition off_range_board :: grid where
  "off_range_board = put solved_board 0 0 15"

section \<open>Notions of the specification\<close>

text \<open>
  The definitions of this section follow the words of the specification, not the code.
  Two coordinates are \<open>peers\<close> when they lie in a common row, column or 3x3 box;
  a board \<open>has_duplicate\<close> when two different cells that are peers hold the same
  nonzero value.
\<close>

definition peers :: "nat \<Rightarrow> nat \<Rightarrow> nat \<Rightarrow> nat \<Rightarrow> bool" where
  "peers r c r' c' \<longleftrightarrow> r = r' \<or> c = c' \<or> (r div 3 = r' div 3 \<and> c div 3 = c' div 3)"

definition has_duplicate :: "grid \<Rightarrow> bool" where
  "has_duplicate g \<longleftrightarrow>
     (\<exists>r<9. \<exists>c<9. \<exists>r'<9. \<exists>c'<9.
        (r, c) \<noteq> (r', c') \<and> peers r c r' c' \<and> cell g r c \<noteq> 0 \<and> cell g r c = cell g r' c')"

text \<open>
  The data model of the specification takes every entry of a board from 0 to 9:
  \<open>digits_only\<close>. A board is \<open>solved\<close> when it has nine rows of nine cells and the
  digits of every row, of every column and of every box are, as a multiset, exactly
  1 to 9; boxes are numbered by band and stack, each from 0 to 2.
\<close>

definition digits_only :: "grid \<Rightarrow> bool" where
  "digits_only g \<longleftrightarrow> list_all (list_all (\<lambda>v. 0 \<le> v \<and> v \<le> 9)) g"

definition row_digits :: "grid \<Rightarrow> nat \<Rightarrow> int list" where
  "row_digits g r = map (\<lambda>c. cell g r c) [0..<9]"

definition col_digits :: "grid \<Rightarrow> nat \<Rightarrow> int list" where
  "col_digits g c = map (\<lambda>r. cell g r c) [0..<9]"

definition box_digits :: "grid \<Rightarrow> nat \<Rightarrow> nat \<Rightarrow> int list" where
  "box_digits g b s = map (\<lambda>p. cell g (fst p) (snd p)) (box_cells (3 * b) (3 * s))"

definition solved :: "grid \<Rightarrow> bool" where
  "solved g \<longleftrightarrow>
     wf_grid g
   \<and> (\<forall>r<9. mset (row_digits g r) = mset [1..9])
   \<and> (\<forall>c<9. mset (col_digits g c) = mset [1..9])
   \<and> (\<forall>b<3. \<forall>s<3. mset (box_digits g b s) = mset [1..9])"

text \<open>
  A \<open>completion\<close> of a board is a fully filled board (digits 1 to 9, no duplicate in
  any row, column or box) that agrees with the board on each of its nonzero cells.
\<close>

definition completion :: "grid \<Rightarrow> grid \<Rightarrow> bool" where
  "completion g s \<longleftrightarrow>
     wf_grid s
   \<and> (\<forall>r<9. \<forall>c<9. 1 \<le> cell s r c \<and> cell s r c \<le> 9)
   \<and> \<not> has_duplicate s
   \<and> (\<forall>r<9. \<forall>c<9. cell g r c \<noteq> 0 \<longrightarrow> cell s r c = cell g r c)"

text \<open>
  \<open>earlier\<close> is the row-major order on coordinates. \<open>first_minimal g r c\<close> says what
  the specification promises of the cell that the selector returns: it is empty, no empty
  cell of the board has fewer candidates, and no empty cell with as many candidates comes
  earlier.
\<close>

definition earlier :: "nat \<times> nat \<Rightarrow> nat \<times> nat \<Rightarrow> bool" where
  "earlier p q \<longleftrightarrow> fst p < fst q \<or> (fst p = fst q \<and> snd p < snd q)"

definition empty_cell :: "grid \<Rightarrow> nat \<Rightarrow> nat \<Rightarrow> bool" where
  "empty_cell g r c \<longleftrightarrow> r < 9 \<and> c < 9 \<and> cell g r c = 0"

definition first_minimal :: "grid \<Rightarrow> nat \<Rightarrow> nat \<Rightarrow> bool" where
  "first_minimal g r c \<longleftrightarrow>
     empty_cell g r c
   \<and> (\<forall>r' c'. empty_cell g r' c' \<longrightarrow>
          card (candidates g r c) \<le> card (candidates g r' c'))
   \<and> (\<forall>r' c'. empty_cell g r' c' \<and> card (candidates g r' c') = card (candidates g r c) \<longrightarrow>
          \<not> earlier (r', c') (r, c))"

section \<open>Reading a board from standard input\<close>

text \<open>
  Standard input is the list of its lines, as iteration over \<open>sys.stdin\<close> yields them.
  A character of the model is a code point below 256. \<open>py_isspace\<close> and \<open>py_isdigit\<close>
  are \<open>str.isspace\<close> and \<open>str.isdigit\<close> on these code points; \<open>str.isdigit\<close> holds
  of the ten decimal digits and of the superscript digits at 178, 179 and 185.
\<close>

datatype py_error = ValueError

definition py_isspace :: "char \<Rightarrow> bool" where
  "py_isspace ch \<longleftrightarrow> (of_char ch :: int) \<in> set [9, 10, 11, 12, 13, 28, 29, 30, 31, 32, 133, 160]"

definition is_decimal :: "char \<Rightarrow> bool" where
  "is_decimal ch \<longleftrightarrow> 48 \<le> (of_char ch :: int) \<and> (of_char ch :: int) \<le> 57"

definition py_isdigit :: "char \<Rightarrow> bool" where
  "py_isdigit ch \<longleftrightarrow> is_decimal ch \<or> (of_char ch :: int) \<in> set [178, 179, 185]"

definition py_strip :: "string \<Rightarrow> string" where
  "py_strip s = rev (dropWhile py_isspace (rev (dropWhile py_isspace s)))"

text \<open>
  \<open>str.split()\<close> without arguments: the maximal runs of characters that are not
  whitespace. The first argument of \<open>split_from\<close> is the run read so far, reversed.
\<close>

fun split_from :: "string \<Rightarrow> string \<Rightarrow> string list" where
  "split_from cur [] = (if cur = [] then [] else [rev cur])"
| "split_from cur (ch # s) =
     (if py_isspace ch then (if cur = [] then split_from [] s else rev cur # split_from [] s)
      else split_from (ch # cur) s)"

definition py_split :: "string \<Rightarrow> string list" where
  "py_split s = split_from [] s"

text \<open>
  \<open>int(x)\<close> on a string without whitespace, which is all that the reader passes to it:
  an optional sign, then decimal digits, where single underscores may stand between two
  digits. \<open>None\<close> is \<open>ValueError\<close>. The interpreter refuses a literal of more than
  \<open>int_max_str_digits\<close> digits, 4300 unless configured otherwise.
\<close>

definition int_max_str_digits :: int where
  "int_max_str_digits = 4300"

fun digits_value :: "int \<Rightarrow> string \<Rightarrow> int option" where
  "digits_value acc [] = Some acc"
| "digits_value acc (ch # s) =
     (if is_decimal ch then digits_value (10 * acc + (of_char ch - 48)) s
      else if ch = CHR ''_'' \<and> s \<noteq> [] \<and> is_decimal (hd s) then digits_value acc s
      else None)"

definition unsigned_int :: "string \<Rightarrow> int option" where
  "unsigned_int s =
     (if s = [] \<or> \<not> is_decimal (hd s) then None
      else if int_max_str_digits < int (length (filter is_decimal s)) then None
      else digits_value 0 s)"

definition py_int :: "string \<Rightarrow> int option" where
  "py_int s =
     (case s of
        [] \<Rightarrow> None
      | ch # rest \<Rightarrow>
          if ch = CHR ''-'' then map_option uminus (unsigned_int rest)
          else if ch = CHR ''+'' then unsigned_int rest
          else unsigned_int s)"

text \<open>
  The tokens of a line: \<open>[p for p in line.replace(",", " ").split() if p]\<close>.
\<close>

definition tokens :: "string \<Rightarrow> string list" where
  "tokens line =
     filter (\<lambda>p. p \<noteq> [])
       (py_split (map (\<lambda>ch. if ch = CHR '','' then CHR '' '' else ch) line))"

text \<open>
  The loop of \<open>read_grid_from_stdin\<close> over the remaining lines, with the rows collected
  so far. \<open>Inr None\<close> is the result \<open>None\<close>, \<open>Inr (Some g)\<close> the result \<open>g\<close>, and
  \<open>Inl ValueError\<close> the exception that leaves the function when \<open>int(c)\<close> fails in the
  branch for contiguous digits, which no \<open>try\<close> encloses. \<open>after_line\<close> is the end of
  the loop body: the \<open>break\<close> once nine rows are collected, the next line otherwise.
\<close>

fun read_loop :: "grid \<Rightarrow> string list \<Rightarrow> py_error + grid option" where
  "read_loop rows [] = Inr (if length rows = 9 then Some rows else None)"
| "read_loop rows (raw # rest) =
     (let line = py_strip raw in
      if line = [] then read_loop rows rest
      else
        let parts = tokens line in
        if length parts = 9 then
          (case those (map py_int parts) of
             None \<Rightarrow> Inr None
           | Some row \<Rightarrow>
               if length (rows @ [row]) = 9 then Inr (Some (rows @ [row]))
               else read_loop (rows @ [row]) rest)
        else if length line = 9 \<and> list_all py_isdigit line then
          (case those (map (\<lambda>ch. py_int [ch]) line) of
             None \<Rightarrow> Inl ValueError
           | Some row \<Rightarrow>
               if length (rows @ [row]) = 9 then Inr (Some (rows @ [row]))
               else read_loop (rows @ [row]) rest)
        else if length rows = 9 then Inr (Some rows)
        else read_loop rows rest)"

definition read_grid_from_stdin :: "string list \<Rightarrow> py_error + grid option" where
  "read_grid_from_stdin stdin = read_loop [] stdin"

text \<open>
  In the words of the specification, a line is a row line when, stripped, it is not blank
  and has one of the two accepted forms: nine tokens, or nine contiguous digit characters.
\<close>

definition row_line :: "string \<Rightarrow> bool" where
  "row_line raw \<longleftrightarrow>
     (let line = py_strip raw
      in line \<noteq> [] \<and> (length (tokens line) = 9 \<or> (length line = 9 \<and> list_all py_isdigit line)))"

section \<open>Printing and the main program\<close>

fun nat_str :: "nat \<Rightarrow> string" where
  "nat_str n = (if n < 10 then [char_of (48 + n)] else nat_str (n div 10) @ [char_of (48 + n mod 10)])"

definition py_str :: "int \<Rightarrow> string" where
  "py_str i = (if i < 0 then CHR ''-'' # nat_str (nat (- i)) else nat_str (nat i))"

fun py_join :: "string \<Rightarrow> string list \<Rightarrow> string" where
  "py_join sep [] = []"
| "py_join sep [x] = x"
| "py_join sep (x # y # ys) = x @ sep @ py_join sep (y # ys)"

text \<open>\<open>print_grid\<close> as the list of the lines it prints.\<close>

definition print_grid :: "grid \<Rightarrow> string list" where
  "print_grid g =
     concat (map (\<lambda>r.
       (if r mod 3 = 0 \<and> r \<noteq> 0 then [''------+-------+------''] else []) @
       [py_join '' '' (concat (map (\<lambda>c.
          (if c mod 3 = 0 \<and> c \<noteq> 0 then [''|''] else []) @
          [if cell g r c \<noteq> 0 then py_str (cell g r c) else ''.'']) [0..<9]))]) [0..<9])"

definition copy_grid :: "grid \<Rightarrow> grid" where
  "copy_grid g = map (\<lambda>row. row) g"

definition GRID :: grid where
  "GRID =
    [[5,3,0,0,7,0,0,0,0],
     [6,0,0,1,9,5,0,0,0],
     [0,9,8,0,0,0,0,6,0],
     [8,0,0,0,6,0,0,0,3],
     [4,0,0,8,0,3,0,0,1],
     [7,0,0,0,2,0,6,0,0],
     [0,6,0,0,0,0,2,8,0],
     [0,0,0,4,1,9,0,0,5],
     [0,0,0,0,8,0,0,7,9]]"

text \<open>
  How \<open>main\<close> ends: it returns (exit status 0), it calls \<open>sys.exit\<close> with a status, or
  an exception leaves it uncaught (the interpreter prints a traceback and exits with
  status 1). \<open>input_grid\<close> is the board that \<open>main\<close> works on: the one read, if
  \<open>if stdin_grid\<close> finds it non-empty, the built-in puzzle otherwise. \<open>main\<close> gives the
  lines printed to standard output and how it ended; its first argument bounds the depth
  of the calls of \<open>solve\<close>, as there.
\<close>

datatype outcome = Returned | SysExit nat | Uncaught py_error

fun exit_status :: "outcome \<Rightarrow> nat" where
  "exit_status Returned = 0"
| "exit_status (SysExit n) = n"
| "exit_status (Uncaught e) = 1"

definition input_grid :: "grid option \<Rightarrow> grid" where
  "input_grid stdin_grid =
     (case stdin_grid of None \<Rightarrow> GRID | Some g \<Rightarrow> if g \<noteq> [] then g else GRID)"

definition main :: "nat \<Rightarrow> string list \<Rightarrow> (string list \<times> outcome) option" where
  "main n stdin =
     (case read_grid_from_stdin stdin of
        Inl e \<Rightarrow> Some ([], Uncaught e)
      | Inr stdin_grid \<Rightarrow>
          let grid = input_grid stdin_grid in
          if \<not> is_valid_grid grid then
            Some ([''Invalid puzzle (duplicates in row/col/box).''], SysExit 1)
          else
            let out = [''Input:''] @ print_grid grid; work = copy_grid grid in
            (case solve n work of
               None \<Rightarrow> None
             | Some (True, work') \<Rightarrow> Some (out @ [''\<newline>Solved:''] @ print_grid work', Returned)
             | Some (False, work') \<Rightarrow> Some (out @ [''\<newline>No solution exists.''], Returned)))"

text \<open>Inputs for the examples.\<close>

definition out_of_range_input :: "string list" where
  "out_of_range_input = replicate 9 ''10 0 0 0 0 0 0 0 0\<newline>''"

definition duplicate_input :: "string list" where
  "duplicate_input = ''550000000\<newline>'' # replicate 8 ''000000000\<newline>''"

definition blocked_input :: "string list" where
  "blocked_input =
     [''0,1,2,3,4,5,6,7,8\<newline>'', ''\<newline>'', ''045678123\<newline>'', ''not a row\<newline>'']
     @ replicate 7 ''0 0 0 0 0 0 0 0 0\<newline>''"

section \<open>Properties of the board operations\<close>

lemma set_scan_order: "set scan_order = {0..<9} \<times> {0..<9}"
  by (auto simp: scan_order_def)

lemma distinct_scan_order: "distinct scan_order"
  unfolding scan_order_def
  by (intro distinct_concat) (auto simp: distinct_map inj_on_def)

lemma wf_grid_row: "wf_grid g \<Longrightarrow> r < 9 \<Longrightarrow> length (g ! r) = 9"
  by (simp add: wf_grid_def list_all_length)

lemma wf_grid_put:
  assumes "wf_grid g"
  shows "wf_grid (put g r c v)"
proof (cases "r < length g")
  case True
  with assms show ?thesis
    by (auto simp: wf_grid_def put_def list_all_length nth_list_update)
next
  case False
  with assms show ?thesis by (simp add: put_def list_update_beyond)
qed

lemma cell_put:
  "wf_grid g \<Longrightarrow> r < 9 \<Longrightarrow> c < 9 \<Longrightarrow>
   cell (put g r c v) r' c' = (if r' = r \<and> c' = c then v else cell g r' c')"
  by (auto simp: cell_def put_def wf_grid_def list_all_length nth_list_update)

lemma put_same: "put g r c (cell g r c) = g"
  by (simp add: put_def cell_def)

lemma put_put: "wf_grid g \<Longrightarrow> r < 9 \<Longrightarrow> put (put g r c v) r c w = put g r c w"
  by (simp add: put_def wf_grid_def)

lemma put_undo:
  "wf_grid g \<Longrightarrow> r < 9 \<Longrightarrow> cell g r c = 0 \<Longrightarrow> put (put g r c d) r c 0 = g"
  using put_same[of g r c] by (simp add: put_put)

lemma count_empty_card:
  "count_empty g = card {p \<in> set scan_order. cell g (fst p) (snd p) = 0}"
  unfolding count_empty_def
  by (simp add: distinct_length_filter distinct_scan_order Int_def conj_commute)

lemma count_empty_put:
  assumes "wf_grid g" "r < 9" "c < 9" "cell g r c = 0" "d \<noteq> 0"
  shows "count_empty (put g r c d) < count_empty g"
proof -
  let ?A = "{p \<in> set scan_order. cell (put g r c d) (fst p) (snd p) = 0}"
  let ?B = "{p \<in> set scan_order. cell g (fst p) (snd p) = 0}"
  have "(r, c) \<in> ?B" using assms by (simp add: set_scan_order)
  moreover have "(r, c) \<notin> ?A" using assms by (simp add: cell_put)
  moreover have "?A \<subseteq> ?B" using assms by (auto simp: cell_put split: if_splits)
  ultimately have "?A \<subset> ?B" by blast
  moreover have "finite ?B" by simp
  ultimately show ?thesis
    unfolding count_empty_card by (rule psubset_card_mono[rotated])
qed

lemma count_empty_le: "count_empty g \<le> 81"
proof -
  have "count_empty g \<le> length scan_order"
    unfolding count_empty_def by (rule length_filter_le)
  also have "length scan_order = 81"
    by code_simp
  finally show ?thesis .
qed


subsection \<open>Candidates and the selector\<close>

lemma candidates_range: "d \<in> candidates g r c \<Longrightarrow> 1 \<le> d \<and> d \<le> 9"
  by (auto simp: candidates_def Let_def split: if_splits)

lemma candidates_nonzero: "d \<in> candidates g r c \<Longrightarrow> d \<noteq> 0"
  by (drule candidates_range) simp

lemma finite_candidates: "finite (candidates g r c)"
proof (rule finite_subset)
  show "candidates g r c \<subseteq> {1..9}" using candidates_range by auto
qed simp

lemma mrv_scan_SomeD:
  "mrv_scan g ps best = Some (r, c, cs) \<Longrightarrow>
   best = Some (r, c, cs) \<or> ((r, c) \<in> set ps \<and> cell g r c = 0 \<and> cs = candidates g r c)"
proof (induction g ps best rule: mrv_scan.induct)
  case (1 g best)
  then show ?case by simp
next
  case (2 g pr pc rest best)
  show ?case
  proof (cases "cell g pr pc = 0")
    case False
    with 2 show ?thesis by auto
  next
    case True
    note empty = this
    show ?thesis
    proof (cases "candidates g pr pc = {}")
      case True
      with 2 empty show ?thesis by auto
    next
      case False
      note nonempty = this
      show ?thesis
      proof (cases "case best of None \<Rightarrow> True
          | Some (br, bc, best_cands) \<Rightarrow> card (candidates g pr pc) < card best_cands")
        case False
        with 2 empty nonempty show ?thesis by (auto simp: Let_def)
      next
        case True
        note better = this
        show ?thesis
        proof (cases "card (candidates g pr pc) = 1")
          case True
          with 2 empty nonempty better show ?thesis by (auto simp: Let_def)
        next
          case False
          with 2 empty nonempty better show ?thesis by (auto simp: Let_def)
        qed
      qed
    qed
  qed
qed

lemma mrv_scan_NoneD:
  "mrv_scan g ps best = None \<Longrightarrow> best = None \<and> (\<forall>(r, c) \<in> set ps. cell g r c \<noteq> 0)"
proof (induction g ps best rule: mrv_scan.induct)
  case (1 g best)
  then show ?case by simp
next
  case (2 g pr pc rest best)
  show ?case
  proof (cases "cell g pr pc = 0")
    case False
    with 2 show ?thesis by auto
  next
    case True
    note empty = this
    show ?thesis
    proof (cases "candidates g pr pc = {}")
      case True
      with 2 empty show ?thesis by auto
    next
      case False
      note nonempty = this
      show ?thesis
      proof (cases "case best of None \<Rightarrow> True
          | Some (br, bc, best_cands) \<Rightarrow> card (candidates g pr pc) < card best_cands")
        case False
        with 2 empty nonempty show ?thesis by (auto simp: Let_def)
      next
        case True
        note better = this
        show ?thesis
        proof (cases "card (candidates g pr pc) = 1")
          case True
          with 2 empty nonempty better show ?thesis by (auto simp: Let_def)
        next
          case False
          with 2 empty nonempty better show ?thesis by (auto simp: Let_def)
        qed
      qed
    qed
  qed
qed

lemma find_mrv_cell_SomeD:
  assumes "find_mrv_cell g = Some (r, c, cs)"
  shows "r < 9 \<and> c < 9 \<and> cell g r c = 0 \<and> cs = candidates g r c"
  using mrv_scan_SomeD[OF assms[unfolded find_mrv_cell_def]]
  by (simp add: set_scan_order)

lemma find_mrv_cell_NoneD:
  assumes "find_mrv_cell g = None" "r < 9" "c < 9"
  shows "cell g r c \<noteq> 0"
  using mrv_scan_NoneD[OF assms(1)[unfolded find_mrv_cell_def]] assms(2,3)
  by (auto simp: set_scan_order)

subsection \<open>The search restores the board when it fails, and returns\<close>

lemma try_cands_restores:
  assumes IH: "\<And>g g'. wf_grid g \<Longrightarrow> solve n g = Some (False, g') \<Longrightarrow> g' = g"
    and g: "wf_grid g" "r < 9" "c < 9" "cell g r c = 0"
  shows "try_cands n g r c ds = Some (False, g') \<Longrightarrow> g' = g"
proof (induction ds)
  case Nil
  then show ?case by simp
next
  case (Cons d ds)
  from Cons.prems obtain g1 where
    s: "solve n (put g r c d) = Some (False, g1)" and
    t: "try_cands n (put g1 r c 0) r c ds = Some (False, g')"
    by (auto split: option.splits bool.splits)
  from IH[OF wf_grid_put[OF g(1)] s] have "g1 = put g r c d" .
  with g have "put g1 r c 0 = g" by (simp add: put_undo)
  with t Cons.IH show ?case by simp
qed

lemma solve_restores: "wf_grid g \<Longrightarrow> solve n g = Some (False, g') \<Longrightarrow> g' = g"
proof (induction n arbitrary: g g')
  case 0
  then show ?case by simp
next
  case (Suc n)
  show ?case
  proof (cases "find_mrv_cell g")
    case None
    with Suc.prems show ?thesis by simp
  next
    case (Some t)
    obtain r c cs where t: "t = (r, c, cs)" by (cases t)
    note sel = find_mrv_cell_SomeD[OF Some[unfolded t]]
    show ?thesis
    proof (cases "cs = {}")
      case True
      with Suc.prems Some t show ?thesis by simp
    next
      case False
      with Suc.prems Some t
      have "try_cands n g r c (sorted_list_of_set cs) = Some (False, g')" by simp
      then show ?thesis
        using try_cands_restores[OF Suc.IH Suc.prems(1)] sel by blast
    qed
  qed
qed

lemma try_cands_returns:
  assumes IH: "\<And>g. wf_grid g \<Longrightarrow> count_empty g < n \<Longrightarrow> \<exists>res. solve n g = Some res"
    and g: "wf_grid g" "r < 9" "c < 9" "cell g r c = 0" "count_empty g \<le> n"
  shows "\<forall>d \<in> set ds. d \<noteq> 0 \<Longrightarrow> \<exists>res. try_cands n g r c ds = Some res"
proof (induction ds)
  case Nil
  have "try_cands n g r c [] = Some (False, g)" by simp
  then show ?case by blast
next
  case (Cons d ds)
  from Cons.prems have d: "d \<noteq> 0" by simp
  have "count_empty (put g r c d) < n"
    using count_empty_put[OF g(1-4) d] g(5) by simp
  from IH[OF wf_grid_put[OF g(1)] this]
  obtain b g1 where s: "solve n (put g r c d) = Some (b, g1)" by auto
  show ?case
  proof (cases b)
    case True
    with s have "try_cands n g r c (d # ds) = Some (True, g1)" by simp
    then show ?thesis by blast
  next
    case False
    with s have "solve n (put g r c d) = Some (False, g1)" by simp
    from solve_restores[OF wf_grid_put[OF g(1)] this] have "g1 = put g r c d" .
    with g have "put g1 r c 0 = g" by (simp add: put_undo)
    with s False Cons show ?thesis by simp
  qed
qed

lemma solve_returns: "wf_grid g \<Longrightarrow> count_empty g < n \<Longrightarrow> \<exists>res. solve n g = Some res"
proof (induction n arbitrary: g)
  case 0
  then show ?case by simp
next
  case (Suc n)
  show ?case
  proof (cases "find_mrv_cell g")
    case None
    then have "solve (Suc n) g = Some (True, g)" by simp
    then show ?thesis by blast
  next
    case (Some t)
    obtain r c cs where t: "t = (r, c, cs)" by (cases t)
    note sel = find_mrv_cell_SomeD[OF Some[unfolded t]]
    have nz: "\<forall>d \<in> set (sorted_list_of_set cs). d \<noteq> 0"
      using sel by (auto simp: finite_candidates dest: candidates_nonzero)
    from Suc.prems have "count_empty g \<le> n" by simp
    from try_cands_returns[OF Suc.IH Suc.prems(1) _ _ _ this nz] sel
    obtain res where res: "try_cands n g r c (sorted_list_of_set cs) = Some res" by blast
    show ?thesis
    proof (cases "cs = {}")
      case True
      with Some t have "solve (Suc n) g = Some (False, g)" by simp
      then show ?thesis by blast
    next
      case False
      with Some t res have "solve (Suc n) g = Some res" by simp
      then show ?thesis by blast
    qed
  qed
qed

subsection \<open>What the candidate engine computes\<close>

lemma row_as_map: "wf_grid g \<Longrightarrow> r < 9 \<Longrightarrow> g ! r = map (\<lambda>c. cell g r c) [0..<9]"
  using map_nth[of "g ! r"] by (simp add: wf_grid_row cell_def)

lemma set_row: "wf_grid g \<Longrightarrow> r < 9 \<Longrightarrow> set (g ! r) = {cell g r j | j. j < 9}"
  by (subst row_as_map) auto

lemma box_range: "r' \<in> set [(r div 3) * 3..<(r div 3) * 3 + 3] \<longleftrightarrow> r' div 3 = r div 3"
  by (simp; arith)

lemma row_vals_eq:
  "wf_grid g \<Longrightarrow> r < 9 \<Longrightarrow> row_vals g r = {cell g r j | j. j < 9 \<and> cell g r j \<noteq> 0}"
  by (auto simp: row_vals_def set_row)

lemma col_vals_eq: "col_vals g c = {cell g i c | i. i < 9 \<and> cell g i c \<noteq> 0}"
  by (auto simp: col_vals_def)

lemma set_cells_product:
  "set [f i j. i \<leftarrow> rs, j \<leftarrow> cs] = {f i j | i j. i \<in> set rs \<and> j \<in> set cs}"
  by auto

lemma same_band_less:
  assumes "i div 3 = r div 3" "r < 9"
  shows "i < (9::nat)"
proof -
  from assms(2) have "r div 3 < 3" by (simp add: div_less_iff_less_mult)
  with assms(1) have "i div 3 < 3" by simp
  then show ?thesis by (simp add: div_less_iff_less_mult)
qed

lemma box_vals_eq:
  assumes "r < 9" "c < 9"
  shows "box_vals g r c =
     {cell g i j | i j. i < 9 \<and> j < 9 \<and> i div 3 = r div 3 \<and> j div 3 = c div 3 \<and> cell g i j \<noteq> 0}"
    (is "_ = ?S")
proof -
  have b: "box_vals g r c = {cell g i j | i j. i div 3 = r div 3 \<and> j div 3 = c div 3} - {0}"
    unfolding box_vals_def Let_def set_cells_product box_range ..
  show ?thesis
  proof (rule set_eqI, rule iffI)
    fix v
    assume "v \<in> box_vals g r c"
    then obtain i j where v: "v = cell g i j" "i div 3 = r div 3" "j div 3 = c div 3" "v \<noteq> 0"
      unfolding b by blast
    from v(2) assms(1) have "i < 9" by (rule same_band_less)
    moreover from v(3) assms(2) have "j < 9" by (rule same_band_less)
    ultimately show "v \<in> ?S" using v by blast
  next
    fix v
    assume "v \<in> ?S"
    then obtain i j where "v = cell g i j" "i div 3 = r div 3" "j div 3 = c div 3" "v \<noteq> 0"
      by blast
    then show "v \<in> box_vals g r c" unfolding b by blast
  qed
qed

lemma candidates_eq:
  assumes "wf_grid g" "r < 9" "c < 9"
  shows "candidates g r c =
     (if cell g r c = 0 then
        {1..9} - ({cell g r j | j. j < 9 \<and> cell g r j \<noteq> 0}
                \<union> {cell g i c | i. i < 9 \<and> cell g i c \<noteq> 0}
                \<union> {cell g i j | i j. i < 9 \<and> j < 9 \<and> i div 3 = r div 3 \<and> j div 3 = c div 3
                      \<and> cell g i j \<noteq> 0})
      else {})"
  unfolding candidates_def Let_def row_vals_eq[OF assms(1,2)] col_vals_eq box_vals_eq[OF assms(2,3)]
  by auto

lemma candidates_iff:
  assumes "wf_grid g" "r < 9" "c < 9"
  shows "d \<in> candidates g r c \<longleftrightarrow>
     cell g r c = 0 \<and> 1 \<le> d \<and> d \<le> 9 \<and>
     (\<forall>r'<9. \<forall>c'<9. peers r c r' c' \<longrightarrow> cell g r' c' \<noteq> d)"
proof (cases "cell g r c = 0 \<and> 1 \<le> d \<and> d \<le> 9")
  case False
  then show ?thesis unfolding candidates_eq[OF assms] by auto
next
  case True
  then have d0: "d \<noteq> 0" by simp
  let ?R = "{cell g r j | j. j < 9 \<and> cell g r j \<noteq> 0}"
  let ?C = "{cell g i c | i. i < 9 \<and> cell g i c \<noteq> 0}"
  let ?B = "{cell g i j | i j. i < 9 \<and> j < 9 \<and> i div 3 = r div 3 \<and> j div 3 = c div 3
                      \<and> cell g i j \<noteq> 0}"
  have R: "d \<in> ?R \<longleftrightarrow> (\<exists>j<9. cell g r j = d)" using d0 by blast
  have C: "d \<in> ?C \<longleftrightarrow> (\<exists>i<9. cell g i c = d)" using d0 by blast
  have B: "d \<in> ?B \<longleftrightarrow> (\<exists>i<9. \<exists>j<9. i div 3 = r div 3 \<and> j div 3 = c div 3 \<and> cell g i j = d)"
    using d0 by blast
  have "d \<in> candidates g r c \<longleftrightarrow> d \<notin> ?R \<and> d \<notin> ?C \<and> d \<notin> ?B"
    unfolding candidates_eq[OF assms] using True by simp
  also have "\<dots> \<longleftrightarrow> (\<forall>r'<9. \<forall>c'<9. peers r c r' c' \<longrightarrow> cell g r' c' \<noteq> d)"
    (is "?L \<longleftrightarrow> ?P")
  proof
    assume L: ?L
    show ?P
    proof (intro allI impI)
      fix r' c' assume b: "r' < 9" "c' < 9" and p: "peers r c r' c'"
      from p consider "r = r'" | "c = c'" | "r div 3 = r' div 3 \<and> c div 3 = c' div 3"
        unfolding peers_def by blast
      then show "cell g r' c' \<noteq> d"
      proof cases
        case 1
        with L b show ?thesis unfolding R by blast
      next
        case 2
        with L b show ?thesis unfolding C by blast
      next
        case 3
        with L b show ?thesis unfolding B by metis
      qed
    qed
  next
    assume P: ?P
    have "d \<notin> ?R" unfolding R using P assms(2,3) by (auto simp: peers_def)
    moreover have "d \<notin> ?C" unfolding C using P assms(2,3) by (auto simp: peers_def)
    moreover have "d \<notin> ?B" unfolding B using P by (auto simp: peers_def)
    ultimately show ?L by blast
  qed
  finally show ?thesis using True by simp
qed

subsection \<open>What the validator checks\<close>

lemma length_card_distinct: "(\<not> length xs \<noteq> card (set xs)) = distinct xs"
  using card_distinct[of xs] distinct_card[of xs] by auto

lemma concat_map_if: "concat (map (\<lambda>x. if P x then [f x] else []) xs) = map f (filter P xs)"
  by (induction xs) auto

lemma distinct_map_filter:
  "distinct xs \<Longrightarrow> distinct (map f (filter P xs)) = inj_on f {x \<in> set xs. P x}"
  by (simp add: distinct_map)

lemma set_box_cells:
  "set (box_cells br bc) = {(r, c). br \<le> r \<and> r < br + 3 \<and> bc \<le> c \<and> c < bc + 3}"
  by (auto simp: box_cells_def)

lemma distinct_box_cells: "distinct (box_cells br bc)"
  unfolding box_cells_def
  by (intro distinct_concat) (auto simp: distinct_map inj_on_def)

lemma check_distinct:
  "(let vals = xs in \<not> length vals \<noteq> card (set vals)) = distinct xs"
  by (simp only: Let_def length_card_distinct)

lemma row_check:
  assumes "wf_grid g" "r < 9"
  shows "(let vals = [v \<leftarrow> g ! r. v \<noteq> 0] in \<not> length vals \<noteq> card (set vals))
         = inj_on (cell g r) {c. c < 9 \<and> cell g r c \<noteq> 0}"
proof -
  have "[v \<leftarrow> g ! r. v \<noteq> 0] = map (cell g r) [c \<leftarrow> [0..<9]. cell g r c \<noteq> 0]"
    by (subst row_as_map[OF assms]) (simp add: filter_map comp_def)
  then show ?thesis
    unfolding check_distinct by (simp add: distinct_map_filter del: upt_Suc)
qed

lemma col_check:
  "(let vals = [cell g r c. r \<leftarrow> [0..<9], cell g r c \<noteq> 0] in \<not> length vals \<noteq> card (set vals))
         = inj_on (\<lambda>r. cell g r c) {r. r < 9 \<and> cell g r c \<noteq> 0}"
  unfolding check_distinct concat_map_if
  by (simp add: distinct_map_filter del: upt_Suc)

lemma box_check:
  "(let vals = [cell g r c. (r, c) \<leftarrow> box_cells br bc, cell g r c \<noteq> 0]
    in \<not> length vals \<noteq> card (set vals))
   = inj_on (\<lambda>p. cell g (fst p) (snd p)) {p \<in> set (box_cells br bc). cell g (fst p) (snd p) \<noteq> 0}"
  unfolding check_distinct case_prod_unfold concat_map_if
  by (simp add: distinct_map_filter distinct_box_cells)

lemma is_valid_grid_inj:
  assumes "wf_grid g"
  shows "is_valid_grid g \<longleftrightarrow>
      (\<forall>r<9. inj_on (cell g r) {c. c < 9 \<and> cell g r c \<noteq> 0})
    \<and> (\<forall>c<9. inj_on (\<lambda>r. cell g r c) {r. r < 9 \<and> cell g r c \<noteq> 0})
    \<and> (\<forall>br\<in>{0,3,6}. \<forall>bc\<in>{0,3,6}.
         inj_on (\<lambda>p. cell g (fst p) (snd p))
           {p \<in> set (box_cells br bc). cell g (fst p) (snd p) \<noteq> 0})"
proof -
  have rows: "list_all (\<lambda>r. let vals = [v \<leftarrow> g ! r. v \<noteq> 0]
                   in \<not> length vals \<noteq> card (set vals)) [0..<9]
      \<longleftrightarrow> (\<forall>r<9. inj_on (cell g r) {c. c < 9 \<and> cell g r c \<noteq> 0})"
    unfolding list_all_iff using row_check[OF assms] by auto
  have cols: "list_all (\<lambda>c. inj_on (\<lambda>r. cell g r c) {r. r < 9 \<and> cell g r c \<noteq> 0}) [0..<9]
      \<longleftrightarrow> (\<forall>c<9. inj_on (\<lambda>r. cell g r c) {r. r < 9 \<and> cell g r c \<noteq> 0})"
    unfolding list_all_iff by auto
  show ?thesis
    unfolding is_valid_grid_def rows col_check cols box_check
    by (simp add: list_all_iff)
qed


lemma band_bounds:
  assumes "i div 3 = k"
  shows "3 * k \<le> i \<and> i < 3 * k + (3::nat)"
proof -
  have "i = 3 * (i div 3) + i mod 3" by simp
  moreover have "i mod 3 < 3" by simp
  ultimately show ?thesis unfolding assms by linarith
qed

lemma band_start: "r < 9 \<Longrightarrow> 3 * (r div 3) \<in> {0, 3, 6::nat}"
proof -
  assume "r < 9"
  then have "r div 3 < 3" by (simp add: div_less_iff_less_mult)
  then have "r div 3 = 0 \<or> r div 3 = 1 \<or> r div 3 = 2" by arith
  then show ?thesis by auto
qed

lemma in_band:
  assumes "br \<in> {0, 3, 6::nat}" "br \<le> r" "r < br + 3"
  shows "r < 9 \<and> r div 3 = br div 3"
  using assms by (elim insertE emptyE) (auto intro!: div_nat_eqI)

lemma in_own_box:
  assumes "r' div 3 = r div 3" "c' div 3 = c div 3"
  shows "(r', c') \<in> set (box_cells (3 * (r div 3)) (3 * (c div 3)))"
  using band_bounds[OF assms(1)] band_bounds[OF assms(2)] by (simp add: set_box_cells)

lemma valid_iff_no_duplicate:
  assumes wf: "wf_grid g"
  shows "is_valid_grid g \<longleftrightarrow> \<not> has_duplicate g"
proof
  assume v: "is_valid_grid g"
  show "\<not> has_duplicate g"
  proof
    assume "has_duplicate g"
    then obtain r c r' c' where b: "r < 9" "c < 9" "r' < 9" "c' < 9"
      and ne: "(r, c) \<noteq> (r', c')" and p: "peers r c r' c'"
      and nz: "cell g r c \<noteq> 0" and eq: "cell g r c = cell g r' c'"
      unfolding has_duplicate_def by blast
    from p consider "r = r'" | "c = c'" | "r div 3 = r' div 3 \<and> c div 3 = c' div 3"
      unfolding peers_def by blast
    then show False
    proof cases
      case 1
      from v b(1) have "inj_on (cell g r) {c. c < 9 \<and> cell g r c \<noteq> 0}"
        unfolding is_valid_grid_inj[OF wf] by blast
      from inj_onD[OF this, of c c'] 1 b nz eq ne show False by simp
    next
      case 2
      from v b(2) have "inj_on (\<lambda>r. cell g r c) {r. r < 9 \<and> cell g r c \<noteq> 0}"
        unfolding is_valid_grid_inj[OF wf] by blast
      from inj_onD[OF this, of r r'] 2 b nz eq ne show False by simp
    next
      case 3
      let ?br = "3 * (r div 3)" and ?bc = "3 * (c div 3)"
      from v band_start[OF b(1)] band_start[OF b(2)]
      have i: "inj_on (\<lambda>p. cell g (fst p) (snd p))
           {p \<in> set (box_cells ?br ?bc). cell g (fst p) (snd p) \<noteq> 0}"
        unfolding is_valid_grid_inj[OF wf] by blast
      have "(r, c) \<in> set (box_cells ?br ?bc)" by (rule in_own_box) simp_all
      moreover have "(r', c') \<in> set (box_cells ?br ?bc)" using 3 by (intro in_own_box) simp_all
      ultimately show False using inj_onD[OF i, of "(r, c)" "(r', c')"] nz eq ne by simp
    qed
  qed
next
  assume nd: "\<not> has_duplicate g"
  have dup: "False" if "r < 9" "c < 9" "r' < 9" "c' < 9" "(r, c) \<noteq> (r', c')" "peers r c r' c'"
    "cell g r c \<noteq> 0" "cell g r c = cell g r' c'" for r c r' c'
    using nd that unfolding has_duplicate_def by blast
  have rows: "inj_on (cell g r) {c. c < 9 \<and> cell g r c \<noteq> 0}" if "r < 9" for r
  proof (rule inj_onI)
    fix c c' assume "c \<in> {c. c < 9 \<and> cell g r c \<noteq> 0}" "c' \<in> {c. c < 9 \<and> cell g r c \<noteq> 0}"
      "cell g r c = cell g r c'"
    with dup[of r c r c'] that show "c = c'" by (auto simp: peers_def)
  qed
  have cols: "inj_on (\<lambda>r. cell g r c) {r. r < 9 \<and> cell g r c \<noteq> 0}" if "c < 9" for c
  proof (rule inj_onI)
    fix r r' assume "r \<in> {r. r < 9 \<and> cell g r c \<noteq> 0}" "r' \<in> {r. r < 9 \<and> cell g r c \<noteq> 0}"
      "cell g r c = cell g r' c"
    with dup[of r c r' c] that show "r = r'" by (auto simp: peers_def)
  qed
  have boxes: "inj_on (\<lambda>p. cell g (fst p) (snd p))
           {p \<in> set (box_cells br bc). cell g (fst p) (snd p) \<noteq> 0}"
    if "br \<in> {0, 3, 6}" "bc \<in> {0, 3, 6}" for br bc
  proof (rule inj_onI)
    fix p q
    assume p: "p \<in> {p \<in> set (box_cells br bc). cell g (fst p) (snd p) \<noteq> 0}"
      and q: "q \<in> {p \<in> set (box_cells br bc). cell g (fst p) (snd p) \<noteq> 0}"
      and eq: "cell g (fst p) (snd p) = cell g (fst q) (snd q)"
    from p have pb: "br \<le> fst p" "fst p < br + 3" "bc \<le> snd p" "snd p < bc + 3"
      by (auto simp: set_box_cells)
    from q have qb: "br \<le> fst q" "fst q < br + 3" "bc \<le> snd q" "snd q < bc + 3"
      by (auto simp: set_box_cells)
    note bands = in_band[OF that(1) pb(1,2)] in_band[OF that(2) pb(3,4)]
      in_band[OF that(1) qb(1,2)] in_band[OF that(2) qb(3,4)]
    have "peers (fst p) (snd p) (fst q) (snd q)" using bands by (simp add: peers_def)
    with dup[of "fst p" "snd p" "fst q" "snd q"] bands p eq show "p = q"
      by (auto simp: prod_eq_iff)
  qed
  show "is_valid_grid g"
    unfolding is_valid_grid_inj[OF wf] using rows cols boxes by blast
qed

subsection \<open>Placing a candidate keeps the board consistent\<close>

lemma digits_only_iff:
  assumes "wf_grid g"
  shows "digits_only g \<longleftrightarrow> (\<forall>r<9. \<forall>c<9. 0 \<le> cell g r c \<and> cell g r c \<le> 9)"
  using assms unfolding digits_only_def wf_grid_def cell_def list_all_length by auto

lemma peers_sym: "peers r c r' c' \<Longrightarrow> peers r' c' r c"
  by (auto simp: peers_def)

lemma put_candidate_no_duplicate:
  assumes wf: "wf_grid g" and rc: "r < 9" "c < 9"
    and nd: "\<not> has_duplicate g" and d: "d \<in> candidates g r c"
  shows "\<not> has_duplicate (put g r c d)"
proof
  assume "has_duplicate (put g r c d)"
  then obtain a b a' b' where ab: "a < 9" "b < 9" "a' < 9" "b' < 9"
    and ne: "(a, b) \<noteq> (a', b')" and p: "peers a b a' b'"
    and nz: "cell (put g r c d) a b \<noteq> 0"
    and eq: "cell (put g r c d) a b = cell (put g r c d) a' b'"
    unfolding has_duplicate_def by blast
  from d have free: "\<And>r' c'. r' < 9 \<Longrightarrow> c' < 9 \<Longrightarrow> peers r c r' c' \<Longrightarrow> cell g r' c' \<noteq> d"
    unfolding candidates_iff[OF wf rc] by blast
  show False
  proof (cases "(a, b) = (r, c)")
    case True
    with ne have "(a', b') \<noteq> (r, c)" by auto
    with True eq have "cell g a' b' = d" by (auto simp: cell_put[OF wf rc] split: if_splits)
    with free[OF ab(3,4)] p True show False by auto
  next
    case False
    note ab_other = this
    show False
    proof (cases "(a', b') = (r, c)")
      case True
      with ab_other eq have "cell g a b = d" by (auto simp: cell_put[OF wf rc] split: if_splits)
      with free[OF ab(1,2)] peers_sym[OF p] True show False by auto
    next
      case False
      with ab_other nz eq have "cell g a b \<noteq> 0" "cell g a b = cell g a' b'"
        by (auto simp: cell_put[OF wf rc] split: if_splits)
      with nd ab ne p show False unfolding has_duplicate_def by blast
    qed
  qed
qed

lemma put_candidate_digits_only:
  assumes wf: "wf_grid g" and rc: "r < 9" "c < 9"
    and dg: "digits_only g" and d: "d \<in> candidates g r c"
  shows "digits_only (put g r c d)"
  using dg candidates_range[OF d]
  unfolding digits_only_iff[OF wf] digits_only_iff[OF wf_grid_put[OF wf]]
  by (simp add: cell_put[OF wf rc])

subsection \<open>An invariant kept by every placement holds when the search succeeds\<close>

lemma try_cands_True_invariant:
  assumes step: "\<And>h r c d. wf_grid h \<Longrightarrow> I h \<Longrightarrow> r < 9 \<Longrightarrow> c < 9 \<Longrightarrow>
                   d \<in> candidates h r c \<Longrightarrow> I (put h r c d)"
    and IH: "\<And>h h'. wf_grid h \<Longrightarrow> I h \<Longrightarrow> solve n h = Some (True, h') \<Longrightarrow>
                   wf_grid h' \<and> I h' \<and> find_mrv_cell h' = None"
    and g: "wf_grid g" "I g" "r < 9" "c < 9" "cell g r c = 0"
  shows "set ds \<subseteq> candidates g r c \<Longrightarrow> try_cands n g r c ds = Some (True, g') \<Longrightarrow>
         wf_grid g' \<and> I g' \<and> find_mrv_cell g' = None"
proof (induction ds)
  case Nil
  then show ?case by simp
next
  case (Cons d ds)
  from Cons.prems(1) have d: "d \<in> candidates g r c" by simp
  from Cons.prems(2) obtain b g1 where s: "solve n (put g r c d) = Some (b, g1)"
    by (cases "solve n (put g r c d)") auto
  show ?case
  proof (cases b)
    case True
    with s Cons.prems(2) have "solve n (put g r c d) = Some (True, g')" by simp
    from IH[OF wf_grid_put[OF g(1)] step[OF g(1,2,3,4) d] this] show ?thesis .
  next
    case False
    with s have s': "solve n (put g r c d) = Some (False, g1)" by simp
    from solve_restores[OF wf_grid_put[OF g(1)] s'] have "g1 = put g r c d" .
    with g have "put g1 r c 0 = g" by (simp add: put_undo)
    with s' Cons.prems have "try_cands n g r c ds = Some (True, g')" by simp
    with Cons.IH Cons.prems(1) show ?thesis by simp
  qed
qed

lemma solve_True_invariant:
  assumes step: "\<And>h r c d. wf_grid h \<Longrightarrow> I h \<Longrightarrow> r < 9 \<Longrightarrow> c < 9 \<Longrightarrow>
                   d \<in> candidates h r c \<Longrightarrow> I (put h r c d)"
  shows "wf_grid g \<Longrightarrow> I g \<Longrightarrow> solve n g = Some (True, g') \<Longrightarrow>
         wf_grid g' \<and> I g' \<and> find_mrv_cell g' = None"
proof (induction n arbitrary: g g')
  case 0
  then show ?case by simp
next
  case (Suc n)
  show ?case
  proof (cases "find_mrv_cell g")
    case None
    with Suc.prems show ?thesis by simp
  next
    case (Some t)
    obtain r c cs where t: "t = (r, c, cs)" by (cases t)
    note sel = find_mrv_cell_SomeD[OF Some[unfolded t]]
    from Suc.prems(3) Some t have ne: "cs \<noteq> {}" by (auto split: if_splits)
    with Suc.prems(3) Some t
    have run: "try_cands n g r c (sorted_list_of_set cs) = Some (True, g')" by simp
    have sub: "set (sorted_list_of_set cs) \<subseteq> candidates g r c"
      using sel by (simp add: finite_candidates)
    show ?thesis
    proof (rule try_cands_True_invariant[where I = I and n = n and g = g and r = r and c = c
          and ds = "sorted_list_of_set cs"])
      fix h r c d
      assume "wf_grid h" "I h" "r < 9" "c < 9" "d \<in> candidates h r c"
      then show "I (put h r c d)" by (rule step)
    next
      fix h h'
      assume "wf_grid h" "I h" "solve n h = Some (True, h')"
      then show "wf_grid h' \<and> I h' \<and> find_mrv_cell h' = None" by (rule Suc.IH)
    qed (use Suc.prems sel sub run in simp_all)
  qed
qed


subsection \<open>A filled board without duplicates is solved\<close>

lemma unit_is_permutation:
  assumes "length xs = 9" "distinct xs" "set xs \<subseteq> {1..9::int}"
  shows "mset xs = mset [1..9]"
proof -
  have "card (set xs) = card {1..9::int}"
    using assms(1,2) by (simp add: distinct_card)
  with assms(3) have "set xs = {1..9}" by (intro card_subset_eq) simp_all
  then have "set xs = set [1..9]" by simp
  moreover have "distinct [1..9::int]" by simp
  ultimately show ?thesis using assms(2) by (simp only: set_eq_iff_mset_eq_distinct)
qed

lemma length_box_cells: "length (box_cells br bc) = 9"
  by (simp add: box_cells_def length_concat comp_def sum_list_triv)

lemma less3_cases: "b < 3 \<Longrightarrow> 3 * b \<in> {0, 3, 6::nat}"
proof -
  assume "b < 3"
  then have "b = 0 \<or> b = 1 \<or> b = 2" by arith
  then show ?thesis by auto
qed

lemma filled_no_duplicate_solved:
  assumes wf: "wf_grid g" and dg: "digits_only g" and nd: "\<not> has_duplicate g"
    and full: "\<And>r c. r < 9 \<Longrightarrow> c < 9 \<Longrightarrow> cell g r c \<noteq> 0"
  shows "solved g"
proof -
  have rng: "cell g r c \<in> {1..9}" if "r < 9" "c < 9" for r c
  proof -
    from dg that have "0 \<le> cell g r c \<and> cell g r c \<le> 9"
      unfolding digits_only_iff[OF wf] by blast
    with full[OF that] show ?thesis by simp
  qed
  from nd have "is_valid_grid g" by (simp add: valid_iff_no_duplicate[OF wf])
  then have v:
    "\<And>r. r < 9 \<Longrightarrow> inj_on (cell g r) {c. c < 9 \<and> cell g r c \<noteq> 0}"
    "\<And>c. c < 9 \<Longrightarrow> inj_on (\<lambda>r. cell g r c) {r. r < 9 \<and> cell g r c \<noteq> 0}"
    "\<And>br bc. br \<in> {0, 3, 6} \<Longrightarrow> bc \<in> {0, 3, 6} \<Longrightarrow>
        inj_on (\<lambda>p. cell g (fst p) (snd p)) {p \<in> set (box_cells br bc). cell g (fst p) (snd p) \<noteq> 0}"
    unfolding is_valid_grid_inj[OF wf] by blast+
  have rows: "mset (row_digits g r) = mset [1..9]" if r: "r < 9" for r
  proof (rule unit_is_permutation)
    show "length (row_digits g r) = 9" by (simp add: row_digits_def)
    have "{c. c < 9 \<and> cell g r c \<noteq> 0} = set [0..<9]" using full[OF r] by auto
    with v(1)[OF r] have "inj_on (cell g r) (set [0..<9])" by simp
    then show "distinct (row_digits g r)"
      unfolding row_digits_def by (simp only: distinct_map distinct_upt simp_thms)
    show "set (row_digits g r) \<subseteq> {1..9}" using rng[OF r] by (auto simp: row_digits_def)
  qed
  have cols: "mset (col_digits g c) = mset [1..9]" if c: "c < 9" for c
  proof (rule unit_is_permutation)
    show "length (col_digits g c) = 9" by (simp add: col_digits_def)
    have "{r. r < 9 \<and> cell g r c \<noteq> 0} = set [0..<9]" using full[OF _ c] by auto
    with v(2)[OF c] have "inj_on (\<lambda>r. cell g r c) (set [0..<9])" by simp
    then show "distinct (col_digits g c)"
      unfolding col_digits_def by (simp only: distinct_map distinct_upt simp_thms)
    show "set (col_digits g c) \<subseteq> {1..9}" using rng[OF _ c] by (auto simp: col_digits_def)
  qed
  have boxes: "mset (box_digits g b s) = mset [1..9]" if bs: "b < 3" "s < 3" for b s
  proof (rule unit_is_permutation)
    let ?ps = "box_cells (3 * b) (3 * s)"
    have inside: "fst p < 9 \<and> snd p < 9" if "p \<in> set ?ps" for p
    proof -
      from that have "fst p < 3 * b + 3" "snd p < 3 * s + 3"
        by (auto simp: set_box_cells)
      with bs show ?thesis by simp
    qed
    show "length (box_digits g b s) = 9" by (simp add: box_digits_def length_box_cells)
    have "p \<in> set ?ps \<Longrightarrow> cell g (fst p) (snd p) \<noteq> 0" for p
      using inside[of p] full by simp
    then have "{p \<in> set ?ps. cell g (fst p) (snd p) \<noteq> 0} = set ?ps" by blast
    with v(3)[OF less3_cases[OF bs(1)] less3_cases[OF bs(2)]]
    have "inj_on (\<lambda>p. cell g (fst p) (snd p)) (set ?ps)" by simp
    then show "distinct (box_digits g b s)"
      unfolding box_digits_def by (simp only: distinct_map distinct_box_cells simp_thms)
    have "p \<in> set ?ps \<Longrightarrow> cell g (fst p) (snd p) \<in> {1..9}" for p
      using inside[of p] rng by simp
    then show "set (box_digits g b s) \<subseteq> {1..9}"
      unfolding box_digits_def by auto
  qed
  from wf rows cols boxes show ?thesis unfolding solved_def by blast
qed

lemma solve_True_solved:
  assumes "wf_grid g" "digits_only g" "is_valid_grid g" "solve n g = Some (True, g')"
  shows "(\<forall>r<9. \<forall>c<9. cell g' r c \<noteq> 0) \<and> solved g'"
proof -
  let ?I = "\<lambda>h. digits_only h \<and> \<not> has_duplicate h"
  have "wf_grid g' \<and> ?I g' \<and> find_mrv_cell g' = None"
  proof (rule solve_True_invariant[where I = ?I and g = g and n = n])
    fix h r c d
    assume "wf_grid h" "?I h" "r < 9" "c < 9" "d \<in> candidates h r c"
    then show "?I (put h r c d)"
      using put_candidate_no_duplicate put_candidate_digits_only by blast
  qed (use assms valid_iff_no_duplicate in simp_all)
  then have g': "wf_grid g'" "digits_only g'" "\<not> has_duplicate g'" "find_mrv_cell g' = None"
    by simp_all
  have full: "cell g' r c \<noteq> 0" if "r < 9" "c < 9" for r c
    using find_mrv_cell_NoneD[OF g'(4) that] .
  with filled_no_duplicate_solved[OF g'(1,2,3)] show ?thesis by blast
qed

subsection \<open>Clues stay in place\<close>

lemma solve_True_keeps_clues:
  assumes "wf_grid g" "solve n g = Some (True, g')" "r < 9" "c < 9" "cell g r c \<noteq> 0"
  shows "cell g' r c = cell g r c"
proof -
  let ?I = "\<lambda>h. cell h r c = cell g r c"
  have "wf_grid g' \<and> ?I g' \<and> find_mrv_cell g' = None"
  proof (rule solve_True_invariant[where I = ?I and g = g and n = n])
    fix h r' c' d
    assume h: "wf_grid h" "?I h" "r' < 9" "c' < 9" "d \<in> candidates h r' c'"
    from h(5) have "cell h r' c' = 0" by (auto simp: candidates_def split: if_splits)
    with h(2) assms(5) have "\<not> (r = r' \<and> c = c')" by auto
    with h(1-4) show "?I (put h r' c' d)" by (auto simp: cell_put)
  qed (use assms in simp_all)
  then show ?thesis by simp
qed

lemma solve_keeps_clues:
  assumes "wf_grid g" "solve n g = Some (b, g')" "r < 9" "c < 9" "cell g r c \<noteq> 0"
  shows "cell g' r c = cell g r c"
proof (cases b)
  case True
  with assms show ?thesis by (simp add: solve_True_keeps_clues)
next
  case False
  with assms(1,2) solve_restores[of g n g'] show ?thesis by simp
qed

subsection \<open>The search finds a completion when there is one\<close>

lemma completion_cell_is_candidate:
  assumes wf: "wf_grid g" and cp: "completion g s" and rc: "r < 9" "c < 9"
    and empty: "cell g r c = 0"
  shows "cell s r c \<in> candidates g r c"
proof -
  from cp rc have rng: "1 \<le> cell s r c" "cell s r c \<le> 9"
    unfolding completion_def by blast+
  from cp have nd: "\<not> has_duplicate s" and
    agree: "\<And>r c. r < 9 \<Longrightarrow> c < 9 \<Longrightarrow> cell g r c \<noteq> 0 \<Longrightarrow> cell s r c = cell g r c"
    unfolding completion_def by blast+
  have "cell g r' c' \<noteq> cell s r c" if b: "r' < 9" "c' < 9" and p: "peers r c r' c'" for r' c'
  proof
    assume eq: "cell g r' c' = cell s r c"
    with rng have nz: "cell g r' c' \<noteq> 0" by simp
    with empty have ne: "(r, c) \<noteq> (r', c')" by auto
    from agree[OF b nz] eq have "cell s r c = cell s r' c'" by simp
    moreover from rng have "cell s r c \<noteq> 0" by simp
    ultimately have "has_duplicate s"
      unfolding has_duplicate_def using rc b ne p by blast
    with nd show False ..
  qed
  with empty rng show ?thesis unfolding candidates_iff[OF wf rc] by blast
qed

lemma completion_put:
  assumes wf: "wf_grid g" and cp: "completion g s" and rc: "r < 9" "c < 9"
  shows "completion (put g r c (cell s r c)) s"
  using cp unfolding completion_def by (auto simp: cell_put[OF wf rc])

lemma try_cands_complete:
  assumes IH: "\<And>h. wf_grid h \<Longrightarrow> completion h s \<Longrightarrow> count_empty h < n \<Longrightarrow>
                 \<exists>h'. solve n h = Some (True, h')"
    and g: "wf_grid g" "r < 9" "c < 9" "cell g r c = 0" "count_empty g \<le> n"
    and cp: "completion g s"
  shows "\<forall>d \<in> set ds. d \<noteq> 0 \<Longrightarrow> cell s r c \<in> set ds \<Longrightarrow>
         \<exists>g'. try_cands n g r c ds = Some (True, g')"
proof (induction ds)
  case Nil
  then show ?case by simp
next
  case (Cons d ds)
  from Cons.prems have d: "d \<noteq> 0" by simp
  have fewer: "count_empty (put g r c d) < n"
    using count_empty_put[OF g(1-4) d] g(5) by simp
  from solve_returns[OF wf_grid_put[OF g(1)] fewer]
  obtain b g1 where s: "solve n (put g r c d) = Some (b, g1)" by auto
  show ?case
  proof (cases b)
    case True
    with s have "try_cands n g r c (d # ds) = Some (True, g1)" by simp
    then show ?thesis by blast
  next
    case False
    with s have s': "solve n (put g r c d) = Some (False, g1)" by simp
    have "d \<noteq> cell s r c"
    proof
      assume "d = cell s r c"
      with completion_put[OF g(1) cp g(2,3)] have "completion (put g r c d) s" by simp
      from IH[OF wf_grid_put[OF g(1)] this fewer] s' show False by simp
    qed
    with Cons.prems have in_rest: "cell s r c \<in> set ds" by auto
    from solve_restores[OF wf_grid_put[OF g(1)] s'] have "g1 = put g r c d" .
    with g have "put g1 r c 0 = g" by (simp add: put_undo)
    with s' have "try_cands n g r c (d # ds) = try_cands n g r c ds" by simp
    with Cons.IH Cons.prems(1) in_rest show ?thesis by simp
  qed
qed

lemma solve_complete:
  "wf_grid g \<Longrightarrow> completion g s \<Longrightarrow> count_empty g < n \<Longrightarrow> \<exists>g'. solve n g = Some (True, g')"
proof (induction n arbitrary: g)
  case 0
  then show ?case by simp
next
  case (Suc n)
  show ?case
  proof (cases "find_mrv_cell g")
    case None
    then have "solve (Suc n) g = Some (True, g)" by simp
    then show ?thesis by blast
  next
    case (Some t)
    obtain r c cs where t: "t = (r, c, cs)" by (cases t)
    note sel = find_mrv_cell_SomeD[OF Some[unfolded t]]
    from sel have rc: "r < 9" "c < 9" and empty: "cell g r c = 0"
      and cs: "cs = candidates g r c" by simp_all
    have mem: "cell s r c \<in> cs"
      unfolding cs by (rule completion_cell_is_candidate[OF Suc.prems(1,2) rc empty])
    then have ne: "cs \<noteq> {}" by auto
    have fin: "finite cs" unfolding cs by (rule finite_candidates)
    have nz: "\<forall>d \<in> set (sorted_list_of_set cs). d \<noteq> 0"
      using fin cs by (auto dest: candidates_nonzero)
    from Suc.prems(3) have le: "count_empty g \<le> n" by simp
    have "\<exists>g'. try_cands n g r c (sorted_list_of_set cs) = Some (True, g')"
    proof (rule try_cands_complete[where s = s])
      fix h assume "wf_grid h" "completion h s" "count_empty h < n"
      then show "\<exists>h'. solve n h = Some (True, h')" by (rule Suc.IH)
    qed (use Suc.prems rc empty le nz mem fin in simp_all)
    with Some t ne show ?thesis by simp
  qed
qed

lemma completionI:
  assumes "wf_grid g" "wf_grid s" "list_all (list_all (\<lambda>v. 1 \<le> v \<and> v \<le> 9)) s"
    "is_valid_grid s"
    "list_all (\<lambda>p. cell g (fst p) (snd p) = 0 \<or> cell s (fst p) (snd p) = cell g (fst p) (snd p))
       scan_order"
  shows "completion g s"
proof -
  have "1 \<le> cell s r c \<and> cell s r c \<le> 9" if "r < 9" "c < 9" for r c
    using assms(2,3) that unfolding wf_grid_def cell_def list_all_length by auto
  moreover have "cell s r c = cell g r c" if "r < 9" "c < 9" "cell g r c \<noteq> 0" for r c
  proof -
    from that have "(r, c) \<in> set scan_order" by (simp add: set_scan_order)
    with assms(5) that(3) show ?thesis unfolding list_all_iff by force
  qed
  moreover have "\<not> has_duplicate s"
    using assms(4) by (simp add: valid_iff_no_duplicate[OF assms(2)])
  ultimately show ?thesis unfolding completion_def using assms(2) by blast
qed

subsection \<open>Which cell the selector returns\<close>

lemma sorted_scan_order: "sorted_wrt earlier scan_order"
  by code_simp

lemma scan_order_split:
  assumes "scan_order = pre @ (r, c) # post"
  shows "\<And>r' c'. r' < 9 \<Longrightarrow> c' < 9 \<Longrightarrow> earlier (r', c') (r, c) \<Longrightarrow> (r', c') \<in> set pre"
    and "\<And>r' c'. r' < 9 \<Longrightarrow> c' < 9 \<Longrightarrow> (r', c') \<in> set pre \<or> (r', c') = (r, c) \<or> (r', c') \<in> set post"
proof -
  from sorted_scan_order have after: "\<And>q. q \<in> set post \<Longrightarrow> earlier (r, c) q"
    unfolding assms by (simp add: sorted_wrt_append)
  have all: "(r', c') \<in> set pre \<or> (r', c') = (r, c) \<or> (r', c') \<in> set post"
    if "r' < 9" "c' < 9" for r' c'
  proof -
    from that have "(r', c') \<in> set scan_order" by (simp add: set_scan_order)
    then show ?thesis unfolding assms by auto
  qed
  then show "\<And>r' c'. r' < 9 \<Longrightarrow> c' < 9 \<Longrightarrow>
      (r', c') \<in> set pre \<or> (r', c') = (r, c) \<or> (r', c') \<in> set post" .
  fix r' c'
  assume b: "r' < 9" "c' < 9" and e: "earlier (r', c') (r, c)"
  from e have "(r', c') \<noteq> (r, c)" by (auto simp: earlier_def)
  moreover have "(r', c') \<notin> set post"
  proof
    assume "(r', c') \<in> set post"
    from after[OF this] e show False by (auto simp: earlier_def)
  qed
  ultimately show "(r', c') \<in> set pre" using all[OF b] by blast
qed


lemma card_candidates_ge2:
  assumes "candidates g r c \<noteq> {}" "card (candidates g r c) \<noteq> 1"
  shows "2 \<le> card (candidates g r c)"
proof -
  from assms(1) have "card (candidates g r c) \<noteq> 0" by (simp add: finite_candidates)
  with assms(2) show ?thesis by arith
qed

lemma mrv_scan_first:
  assumes "mrv_scan g ps best = Some (r, c, cs)"
    and "\<forall>br bc bcs. best = Some (br, bc, bcs) \<longrightarrow> 2 \<le> card bcs"
  shows "(best = Some (r, c, cs)
          \<and> (\<forall>p\<in>set ps. cell g (fst p) (snd p) = 0 \<longrightarrow>
                card cs \<le> card (candidates g (fst p) (snd p))))
       \<or> (\<exists>pre post. ps = pre @ (r, c) # post \<and> cell g r c = 0 \<and> cs = candidates g r c
          \<and> (\<forall>p\<in>set pre. cell g (fst p) (snd p) = 0 \<longrightarrow>
                card cs < card (candidates g (fst p) (snd p)))
          \<and> (\<forall>br bc bcs. best = Some (br, bc, bcs) \<longrightarrow> card cs < card bcs)
          \<and> (card cs = 1 \<or> (\<forall>p\<in>set post. cell g (fst p) (snd p) = 0 \<longrightarrow>
                card cs \<le> card (candidates g (fst p) (snd p)))))"
  using assms
proof (induction g ps best rule: mrv_scan.induct)
  case (1 g best)
  then show ?case by simp
next
  case (2 g pr pc rest best)
  let ?k = "card (candidates g pr pc)"
  show ?case
  proof (cases "cell g pr pc = 0")
    case False
    with "2.prems"(1) have run: "mrv_scan g rest best = Some (r, c, cs)" by simp
    from "2.IH"(3)[OF False run "2.prems"(2)]
    consider (kept) "best = Some (r, c, cs)"
        "\<forall>p\<in>set rest. cell g (fst p) (snd p) = 0 \<longrightarrow> card cs \<le> card (candidates g (fst p) (snd p))"
      | (found) pre post where "rest = pre @ (r, c) # post" "cell g r c = 0" "cs = candidates g r c"
        "\<forall>p\<in>set pre. cell g (fst p) (snd p) = 0 \<longrightarrow> card cs < card (candidates g (fst p) (snd p))"
        "\<forall>br bc bcs. best = Some (br, bc, bcs) \<longrightarrow> card cs < card bcs"
        "card cs = 1 \<or> (\<forall>p\<in>set post. cell g (fst p) (snd p) = 0 \<longrightarrow>
                card cs \<le> card (candidates g (fst p) (snd p)))"
      by blast
    then show ?thesis
    proof cases
      case kept
      with False show ?thesis by simp
    next
      case found
      with False show ?thesis
        by (intro disjI2 exI[of _ "(pr, pc) # pre"] exI[of _ post]) simp
    qed
  next
    case True
    note empty = this
    show ?thesis
    proof (cases "candidates g pr pc = {}")
      case True
      with "2.prems"(1) empty have res: "r = pr" "c = pc" "cs = {}" by simp_all
      with True empty "2.prems"(2) show ?thesis
        by (intro disjI2 exI[of _ "[]"] exI[of _ rest]) fastforce
    next
      case False
      note nonempty = this
      show ?thesis
      proof (cases "case best of None \<Rightarrow> True
          | Some (br, bc, best_cands) \<Rightarrow> ?k < card best_cands")
        case False
        then obtain br bc bcs where best: "best = Some (br, bc, bcs)" and ge: "card bcs \<le> ?k"
          by (auto split: option.splits)
        from "2.prems"(1) empty nonempty False
        have run: "mrv_scan g rest best = Some (r, c, cs)" by (simp add: Let_def)
        from "2.IH"(2)[OF empty refl nonempty False run "2.prems"(2)]
        consider (kept) "best = Some (r, c, cs)"
            "\<forall>p\<in>set rest. cell g (fst p) (snd p) = 0 \<longrightarrow> card cs \<le> card (candidates g (fst p) (snd p))"
          | (found) pre post where "rest = pre @ (r, c) # post" "cell g r c = 0" "cs = candidates g r c"
            "\<forall>p\<in>set pre. cell g (fst p) (snd p) = 0 \<longrightarrow> card cs < card (candidates g (fst p) (snd p))"
            "\<forall>br bc bcs. best = Some (br, bc, bcs) \<longrightarrow> card cs < card bcs"
            "card cs = 1 \<or> (\<forall>p\<in>set post. cell g (fst p) (snd p) = 0 \<longrightarrow>
                card cs \<le> card (candidates g (fst p) (snd p)))"
          by blast
        then show ?thesis
        proof cases
          case kept
          with best ge show ?thesis by simp
        next
          case found
          with best ge show ?thesis
            by (intro disjI2 exI[of _ "(pr, pc) # pre"] exI[of _ post]) auto
        qed
      next
        case True
        note better = this
        then have lt: "\<forall>br bc bcs. best = Some (br, bc, bcs) \<longrightarrow> ?k < card bcs" by auto
        show ?thesis
        proof (cases "?k = 1")
          case True
          with "2.prems"(1) empty nonempty better
          have res: "r = pr" "c = pc" "cs = candidates g pr pc" by (auto simp: Let_def)
          with True empty lt show ?thesis
            by (intro disjI2 exI[of _ "[]"] exI[of _ rest]) simp
        next
          case False
          from "2.prems"(1) empty nonempty better False
          have run: "mrv_scan g rest (Some (pr, pc, candidates g pr pc)) = Some (r, c, cs)"
            by (simp add: Let_def)
          have inv: "\<forall>br bc bcs. Some (pr, pc, candidates g pr pc) = Some (br, bc, bcs) \<longrightarrow> 2 \<le> card bcs"
            using card_candidates_ge2[OF nonempty False] by simp
          from "2.IH"(1)[OF empty refl nonempty better False run inv]
          consider (kept) "r = pr" "c = pc" "cs = candidates g pr pc"
              "\<forall>p\<in>set rest. cell g (fst p) (snd p) = 0 \<longrightarrow> card cs \<le> card (candidates g (fst p) (snd p))"
            | (found) pre post where "rest = pre @ (r, c) # post" "cell g r c = 0" "cs = candidates g r c"
              "\<forall>p\<in>set pre. cell g (fst p) (snd p) = 0 \<longrightarrow> card cs < card (candidates g (fst p) (snd p))"
              "card cs < ?k"
              "card cs = 1 \<or> (\<forall>p\<in>set post. cell g (fst p) (snd p) = 0 \<longrightarrow>
                card cs \<le> card (candidates g (fst p) (snd p)))"
            by auto
          then show ?thesis
          proof cases
            case kept
            with empty lt show ?thesis
              by (intro disjI2 exI[of _ "[]"] exI[of _ rest]) simp
          next
            case found
            from found(5) lt
            have "\<forall>br bc bcs. best = Some (br, bc, bcs) \<longrightarrow> card cs < card bcs"
              by (auto dest: less_trans)
            with found show ?thesis
              by (intro disjI2 exI[of _ "(pr, pc) # pre"] exI[of _ post]) simp
          qed
        qed
      qed
    qed
  qed
qed


lemma find_mrv_cell_first:
  assumes "find_mrv_cell g = Some (r, c, cs)"
  shows "empty_cell g r c" "cs = candidates g r c"
    and "\<And>r' c'. empty_cell g r' c' \<Longrightarrow> earlier (r', c') (r, c) \<Longrightarrow>
           card cs < card (candidates g r' c')"
    and "\<And>r' c'. card cs \<noteq> 1 \<Longrightarrow> empty_cell g r' c' \<Longrightarrow>
           card cs \<le> card (candidates g r' c')"
proof -
  from mrv_scan_first[OF assms[unfolded find_mrv_cell_def]]
  obtain pre post where split: "scan_order = pre @ (r, c) # post"
    and e: "cell g r c = 0" and cs: "cs = candidates g r c"
    and before: "\<forall>p\<in>set pre. cell g (fst p) (snd p) = 0 \<longrightarrow>
                card cs < card (candidates g (fst p) (snd p))"
    and after: "card cs = 1 \<or> (\<forall>p\<in>set post. cell g (fst p) (snd p) = 0 \<longrightarrow>
                card cs \<le> card (candidates g (fst p) (snd p)))"
    by auto
  from find_mrv_cell_SomeD[OF assms] show "empty_cell g r c" "cs = candidates g r c"
    by (simp_all add: empty_cell_def)
  show "card cs < card (candidates g r' c')"
    if "empty_cell g r' c'" "earlier (r', c') (r, c)" for r' c'
  proof -
    from that have "(r', c') \<in> set pre"
      using scan_order_split(1)[OF split] by (simp add: empty_cell_def)
    with before that(1) show ?thesis by (auto simp: empty_cell_def)
  qed
  show "card cs \<le> card (candidates g r' c')"
    if "card cs \<noteq> 1" "empty_cell g r' c'" for r' c'
  proof -
    from that(2) have b: "r' < 9" "c' < 9" and z: "cell g r' c' = 0"
      by (simp_all add: empty_cell_def)
    from scan_order_split(2)[OF split b]
    consider "(r', c') \<in> set pre" | "(r', c') = (r, c)" | "(r', c') \<in> set post" by blast
    then show ?thesis
    proof cases
      case 1
      with before z show ?thesis by fastforce
    next
      case 2
      with cs show ?thesis by simp
    next
      case 3
      with after that(1) z show ?thesis by fastforce
    qed
  qed
qed

lemma earlier_irrefl: "\<not> earlier p p"
  by (simp add: earlier_def)

lemma find_mrv_cell_first_minimal:
  assumes "find_mrv_cell g = Some (r, c, cs)"
  shows "first_minimal g r c \<longleftrightarrow>
         \<not> (card cs = 1 \<and> (\<exists>r' c'. empty_cell g r' c' \<and> candidates g r' c' = {}))"
proof -
  note f = find_mrv_cell_first[OF assms]
  have ties: "\<not> earlier (r', c') (r, c)"
    if "empty_cell g r' c'" "card (candidates g r' c') = card (candidates g r c)" for r' c'
    using f(3)[OF that(1)] that(2) f(2) by auto
  show ?thesis
  proof (cases "card cs = 1")
    case False
    with f(4) have "\<And>r' c'. empty_cell g r' c' \<Longrightarrow>
        card (candidates g r c) \<le> card (candidates g r' c')"
      unfolding f(2) by blast
    with f(1) ties False show ?thesis unfolding first_minimal_def by blast
  next
    case True
    show ?thesis
    proof (cases "\<exists>r' c'. empty_cell g r' c' \<and> candidates g r' c' = {}")
      case True
      then obtain r' c' where z: "empty_cell g r' c'" "candidates g r' c' = {}" by blast
      with \<open>card cs = 1\<close> have "\<not> card (candidates g r c) \<le> card (candidates g r' c')"
        unfolding f(2) by simp
      with z(1) have "\<not> first_minimal g r c" unfolding first_minimal_def by blast
      with True \<open>card cs = 1\<close> show ?thesis by blast
    next
      case False
      have "card (candidates g r c) \<le> card (candidates g r' c')" if "empty_cell g r' c'" for r' c'
      proof -
        from False that have "candidates g r' c' \<noteq> {}" by blast
        then have "card (candidates g r' c') \<noteq> 0" by (simp add: finite_candidates)
        with \<open>card cs = 1\<close> show ?thesis unfolding f(2) by simp
      qed
      with f(1) ties False show ?thesis unfolding first_minimal_def by blast
    qed
  qed
qed

subsection \<open>The calls that a call of the search makes\<close>

lemma loop_calls_shape:
  assumes g: "wf_grid g" "r < 9" "c < 9" "cell g r c = 0"
  shows "g' \<in> set (loop_calls n g r c ds) \<Longrightarrow> \<exists>d \<in> set ds. g' = put g r c d"
proof (induction ds)
  case Nil
  then show ?case by simp
next
  case (Cons d ds)
  show ?case
  proof (cases "g' = put g r c d")
    case True
    then show ?thesis by simp
  next
    case False
    with Cons.prems
    have m0: "g' \<in> set (case solve n (put g r c d) of
        Some (False, g1) \<Rightarrow> loop_calls n (put g1 r c 0) r c ds | _ \<Rightarrow> [])"
      by simp
    show ?thesis
    proof (cases "solve n (put g r c d)")
      case None
      with m0 show ?thesis by simp
    next
      case (Some res)
      obtain b g1 where res: "res = (b, g1)" by (cases res)
      show ?thesis
      proof (cases b)
        case True
        with m0 Some res show ?thesis by simp
      next
        case False
        with Some res have s: "solve n (put g r c d) = Some (False, g1)" by simp
        with m0 have m: "g' \<in> set (loop_calls n (put g1 r c 0) r c ds)" by simp
        from solve_restores[OF wf_grid_put[OF g(1)] s] have "g1 = put g r c d" .
        with g have "put g1 r c 0 = g" by (simp add: put_undo)
        with m Cons.IH show ?thesis by simp
      qed
    qed
  qed
qed

lemma solve_calls_shape:
  assumes "wf_grid g" "g' \<in> set (solve_calls n g)"
  shows "\<exists>r<9. \<exists>c<9. \<exists>d. cell g r c = 0 \<and> d \<in> candidates g r c \<and> g' = put g r c d"
proof (cases "find_mrv_cell g")
  case None
  with assms show ?thesis by (simp add: solve_calls_def)
next
  case (Some t)
  obtain r c cs where t: "t = (r, c, cs)" by (cases t)
  note sel = find_mrv_cell_SomeD[OF Some[unfolded t]]
  from assms(2) Some t have "g' \<in> set (loop_calls n g r c (sorted_list_of_set cs))"
    by (simp add: solve_calls_def split: if_splits)
  from loop_calls_shape[OF assms(1) _ _ _ this] sel
  obtain d where "d \<in> set (sorted_list_of_set cs)" "g' = put g r c d" by blast
  with sel show ?thesis by (auto simp: finite_candidates)
qed

lemma solve_calls_fewer:
  assumes "wf_grid g" "g' \<in> set (solve_calls n g)"
  shows "wf_grid g' \<and> count_empty g' < count_empty g"
proof -
  from solve_calls_shape[OF assms] obtain r c d where
    "r < 9" "c < 9" "cell g r c = 0" "d \<in> candidates g r c" "g' = put g r c d" by blast
  with assms(1) show ?thesis
    by (simp add: wf_grid_put count_empty_put candidates_nonzero)
qed


subsection \<open>A larger bound on the depth does not change the result\<close>

lemma try_cands_Suc:
  assumes IH: "\<And>g res. solve n g = Some res \<Longrightarrow> solve (Suc n) g = Some res"
  shows "try_cands n g r c ds = Some res \<Longrightarrow> try_cands (Suc n) g r c ds = Some res"
proof (induction ds arbitrary: g)
  case Nil
  then show ?case by simp
next
  case (Cons d ds)
  from Cons.prems obtain b g1 where s: "solve n (put g r c d) = Some (b, g1)"
    by (cases "solve n (put g r c d)") auto
  note s' = IH[OF s]
  show ?case
  proof (cases b)
    case True
    with s Cons.prems have "res = (True, g1)" by (simp del: solve.simps)
    with s' True show ?thesis by (simp del: solve.simps)
  next
    case False
    with s Cons.prems have "try_cands n (put g1 r c 0) r c ds = Some res"
      by (simp del: solve.simps)
    from Cons.IH[OF this] s' False show ?thesis by (simp del: solve.simps)
  qed
qed

lemma solve_Suc: "solve n g = Some res \<Longrightarrow> solve (Suc n) g = Some res"
proof (induction n arbitrary: g res)
  case 0
  then show ?case by simp
next
  case (Suc n)
  show ?case
  proof (cases "find_mrv_cell g")
    case None
    with Suc.prems show ?thesis by simp
  next
    case (Some t)
    obtain r c cs where t: "t = (r, c, cs)" by (cases t)
    show ?thesis
    proof (cases "cs = {}")
      case True
      with Suc.prems Some t show ?thesis by simp
    next
      case False
      with Suc.prems Some t
      have "try_cands n g r c (sorted_list_of_set cs) = Some res" by simp
      from try_cands_Suc[OF Suc.IH this] Some t False show ?thesis by simp
    qed
  qed
qed

lemma solve_mono: "n \<le> m \<Longrightarrow> solve n g = Some res \<Longrightarrow> solve m g = Some res"
  by (induction m rule: dec_induct) (simp_all add: solve_Suc del: solve.simps)

lemma solve_bound_enough:
  assumes "wf_grid g" "count_empty g < m"
  shows "solve m g = solve (Suc (count_empty g)) g"
proof -
  from solve_returns[OF assms(1), of "Suc (count_empty g)"]
  obtain res where r: "solve (Suc (count_empty g)) g = Some res" by auto
  from assms(2) have "Suc (count_empty g) \<le> m" by simp
  from solve_mono[OF this r] r show ?thesis by simp
qed

subsection \<open>What the reader returns\<close>

lemma those_length: "those xs = Some ys \<Longrightarrow> length ys = length xs"
proof (induction xs arbitrary: ys)
  case Nil
  then show ?case by simp
next
  case (Cons x xs)
  then show ?case by (auto split: option.splits)
qed

lemma read_loop_shape:
  assumes "read_loop rows inp = Inr (Some g)" "list_all (\<lambda>row. length row = 9) rows"
  shows "wf_grid g \<and> 9 \<le> length rows + length (filter row_line inp)"
  using assms
proof (induction rows inp rule: read_loop.induct)
  case (1 rows)
  then show ?case by (auto simp: wf_grid_def split: if_splits)
next
  case (2 rows raw rest)
  let ?line = "py_strip raw"
  show ?case
  proof (cases "?line = []")
    case True
    with "2.prems" have "read_loop rows rest = Inr (Some g)" by simp
    from "2.IH"(1)[OF refl True this "2.prems"(2)] True show ?thesis
      by (simp add: row_line_def)
  next
    case False
    note nonblank = this
    show ?thesis
    proof (cases "length (tokens ?line) = 9")
      case True
      note nine = this
      from "2.prems"(1) nonblank nine obtain row where
        row: "those (map py_int (tokens ?line)) = Some row"
        by (cases "those (map py_int (tokens ?line))") (auto simp: Let_def)
      from those_length[OF row] nine have len: "length row = 9" by simp
      with "2.prems"(2) have all: "list_all (\<lambda>row. length row = 9) (rows @ [row])" by simp
      have rl: "row_line raw" using nonblank nine by (simp add: row_line_def)
      show ?thesis
      proof (cases "length (rows @ [row]) = 9")
        case True
        with "2.prems"(1) nonblank nine row have "g = rows @ [row]" by (simp add: Let_def)
        with all True rl show ?thesis by (simp add: wf_grid_def)
      next
        case False
        with "2.prems"(1) nonblank nine row
        have "read_loop (rows @ [row]) rest = Inr (Some g)" by (simp add: Let_def)
        from "2.IH"(2)[OF refl nonblank refl nine row False this all] rl
        show ?thesis by simp
      qed
    next
      case False
      note not_nine = this
      show ?thesis
      proof (cases "length ?line = 9 \<and> list_all py_isdigit ?line")
        case True
        note digits = this
        from "2.prems"(1) nonblank not_nine digits obtain row where
          row: "those (map (\<lambda>ch. py_int [ch]) ?line) = Some row"
          by (cases "those (map (\<lambda>ch. py_int [ch]) ?line)") (auto simp: Let_def)
        from those_length[OF row] digits have len: "length row = 9" by simp
        with "2.prems"(2) have all: "list_all (\<lambda>row. length row = 9) (rows @ [row])" by simp
        have rl: "row_line raw" using nonblank digits by (simp add: row_line_def)
        show ?thesis
        proof (cases "length (rows @ [row]) = 9")
          case True
          with "2.prems"(1) nonblank not_nine digits row have "g = rows @ [row]"
            by (simp add: Let_def)
          with all True rl show ?thesis by (simp add: wf_grid_def)
        next
          case False
          with "2.prems"(1) nonblank not_nine digits row
          have "read_loop (rows @ [row]) rest = Inr (Some g)" by (simp add: Let_def)
          from "2.IH"(3)[OF refl nonblank refl not_nine digits row False this all] rl
          show ?thesis by simp
        qed
      next
        case False
        note other = this
        show ?thesis
        proof (cases "length rows = 9")
          case True
          with "2.prems" nonblank not_nine other have "g = rows" by (auto simp: Let_def)
          with "2.prems"(2) True show ?thesis by (simp add: wf_grid_def)
        next
          case False
          with "2.prems"(1) nonblank not_nine other
          have "read_loop rows rest = Inr (Some g)" by (auto simp: Let_def)
          from "2.IH"(4)[OF refl nonblank refl not_nine other False this "2.prems"(2)]
          show ?thesis by simp
        qed
      qed
    qed
  qed
qed

lemma read_grid_shape:
  assumes "read_grid_from_stdin inp = Inr (Some g)"
  shows "wf_grid g" "9 \<le> length (filter row_line inp)"
  using read_loop_shape[OF assms[unfolded read_grid_from_stdin_def]] by simp_all

lemma wf_GRID: "wf_grid GRID"
  by code_simp

lemma wf_input_grid:
  assumes "read_grid_from_stdin inp = Inr sg"
  shows "wf_grid (input_grid sg)"
proof (cases sg)
  case None
  then show ?thesis by (simp add: input_grid_def wf_GRID)
next
  case (Some g)
  with assms have "wf_grid g" by (simp add: read_grid_shape)
  with Some show ?thesis by (simp add: input_grid_def wf_GRID)
qed

lemma input_grid_read:
  assumes "read_grid_from_stdin inp = Inr (Some g)"
  shows "input_grid (Some g) = g"
proof -
  from read_grid_shape(1)[OF assms] have "g \<noteq> []" by (auto simp: wf_grid_def)
  then show ?thesis by (simp add: input_grid_def)
qed

lemma py_int_single:
  assumes "py_int [ch] = Some v"
  shows "0 \<le> v \<and> v \<le> 9"
proof -
  from assms have dec: "is_decimal ch" and v: "v = of_char ch - 48"
    by (auto simp: py_int_def unsigned_int_def split: if_splits)
  from dec show ?thesis unfolding v is_decimal_def by simp
qed

lemma those_map_all:
  "those (map f xs) = Some ys \<Longrightarrow> \<forall>x \<in> set xs. P x \<longrightarrow> (\<forall>y. f x = Some y \<longrightarrow> Q y) \<Longrightarrow>
   \<forall>x \<in> set xs. P x \<Longrightarrow> list_all Q ys"
proof (induction xs arbitrary: ys)
  case Nil
  then show ?case by simp
next
  case (Cons x xs)
  then show ?case by (auto split: option.splits)
qed

lemma read_loop_digits:
  assumes "read_loop rows inp = Inr (Some g)"
    "list_all (list_all (\<lambda>v. 0 \<le> v \<and> v \<le> 9)) rows"
    "list_all (\<lambda>raw. length (tokens (py_strip raw)) \<noteq> 9) inp"
  shows "digits_only g"
  using assms
proof (induction rows inp rule: read_loop.induct)
  case (1 rows)
  then show ?case by (auto simp: digits_only_def split: if_splits)
next
  case (2 rows raw rest)
  let ?line = "py_strip raw"
  from "2.prems"(3) have not_nine: "length (tokens ?line) \<noteq> 9"
    and rest: "list_all (\<lambda>raw. length (tokens (py_strip raw)) \<noteq> 9) rest" by simp_all
  show ?case
  proof (cases "?line = []")
    case True
    with "2.prems" have "read_loop rows rest = Inr (Some g)" by simp
    from "2.IH"(1)[OF refl True this "2.prems"(2) rest] show ?thesis .
  next
    case False
    note nonblank = this
    show ?thesis
    proof (cases "length ?line = 9 \<and> list_all py_isdigit ?line")
      case True
      note digits = this
      from "2.prems"(1) nonblank not_nine digits obtain row where
        row: "those (map (\<lambda>ch. py_int [ch]) ?line) = Some row"
        by (cases "those (map (\<lambda>ch. py_int [ch]) ?line)") (auto simp: Let_def)
      have "list_all (\<lambda>v. 0 \<le> v \<and> v \<le> 9) row"
        by (rule those_map_all[OF row, where P = "\<lambda>_. True"]) (auto dest: py_int_single)
      with "2.prems"(2)
      have all: "list_all (list_all (\<lambda>v. 0 \<le> v \<and> v \<le> 9)) (rows @ [row])" by simp
      show ?thesis
      proof (cases "length (rows @ [row]) = 9")
        case True
        with "2.prems"(1) nonblank not_nine digits row have "g = rows @ [row]"
          by (simp add: Let_def)
        with all show ?thesis by (simp add: digits_only_def)
      next
        case False
        with "2.prems"(1) nonblank not_nine digits row
        have "read_loop (rows @ [row]) rest = Inr (Some g)" by (simp add: Let_def)
        from "2.IH"(3)[OF refl nonblank refl not_nine digits row False this all rest]
        show ?thesis .
      qed
    next
      case False
      note other = this
      show ?thesis
      proof (cases "length rows = 9")
        case True
        with "2.prems" nonblank not_nine other have "g = rows" by (auto simp: Let_def)
        with "2.prems"(2) show ?thesis by (simp add: digits_only_def)
      next
        case False
        with "2.prems"(1) nonblank not_nine other
        have "read_loop rows rest = Inr (Some g)" by (auto simp: Let_def)
        from "2.IH"(4)[OF refl nonblank refl not_nine other False this "2.prems"(2) rest]
        show ?thesis .
      qed
    qed
  qed
qed

lemma read_grid_digits:
  assumes "read_grid_from_stdin inp = Inr (Some g)"
    "list_all (\<lambda>raw. length (tokens (py_strip raw)) \<noteq> 9) inp"
  shows "digits_only g"
  using read_loop_digits[OF assms(1)[unfolded read_grid_from_stdin_def] _ assms(2)] by simp

subsection \<open>The main program\<close>

lemma copy_grid_id: "copy_grid g = g"
  by (simp add: copy_grid_def)

lemma main_rejects:
  assumes "read_grid_from_stdin inp = Inr sg" "\<not> is_valid_grid (input_grid sg)"
  shows "main n inp = Some ([''Invalid puzzle (duplicates in row/col/box).''], SysExit 1)"
  using assms by (simp add: main_def)

lemma main_no_solution:
  assumes "read_grid_from_stdin inp = Inr sg" "is_valid_grid (input_grid sg)"
    "solve n (input_grid sg) = Some (False, g')"
  shows "main n inp =
    Some ([''Input:''] @ print_grid (input_grid sg) @ [''\<newline>No solution exists.''], Returned)"
  using assms by (simp add: main_def copy_grid_id)

lemma main_returns:
  assumes "read_grid_from_stdin inp = Inr sg"
  shows "\<exists>res. main (Suc (count_empty (input_grid sg))) inp = Some res"
proof (cases "is_valid_grid (input_grid sg)")
  case False
  with main_rejects[OF assms] show ?thesis by blast
next
  case True
  from solve_returns[OF wf_input_grid[OF assms], of "Suc (count_empty (input_grid sg))"]
  obtain b g' where "solve (Suc (count_empty (input_grid sg))) (input_grid sg) = Some (b, g')"
    by auto
  with assms True show ?thesis by (cases b) (simp_all add: main_def copy_grid_id)
qed

lemma read_blocked_input: "read_grid_from_stdin blocked_input = Inr (Some blocked_grid)"
  by code_simp

lemma read_duplicate_input:
  "read_grid_from_stdin duplicate_input =
     Inr (Some ([5,5,0,0,0,0,0,0,0] # replicate 8 [0,0,0,0,0,0,0,0,0]))"
  by code_simp

lemma read_out_of_range_input:
  "read_grid_from_stdin out_of_range_input = Inr (Some (replicate 9 [10,0,0,0,0,0,0,0,0]))"
  by code_simp

text \<open>
  The puzzle built into \<open>main\<close> has no solution: the search fails on it, so by
  completeness it has no completion.
\<close>

lemma solve_GRID: "solve 52 GRID = Some (False, GRID)"
  by code_simp

lemma GRID_has_no_completion: "\<not> completion GRID s"
proof
  assume "completion GRID s"
  moreover have "count_empty GRID < 52" by code_simp
  ultimately obtain g' where "solve 52 GRID = Some (True, g')"
    using solve_complete[OF wf_GRID] by blast
  with solve_GRID show False by simp
qed

section \<open>Restoration on failure\<close>

text \<open>
  Claim C3. Whenever \<open>solve\<close> returns \<open>False\<close>, the board after the call is, cell
  for cell, the board before the call.
\<close>

theorem solve_failure_restores_grid:
  "wf_grid g \<Longrightarrow> solve n g = Some (False, g') \<Longrightarrow> g' = g"
  by (rule solve_restores)

theorem solve_failure_restores_grid_witness:
  "wf_grid blocked_grid \<and> solve 2 blocked_grid = Some (False, blocked_grid)"
proof -
  have w: "wf_grid blocked_grid" by code_simp
  have "map_option fst (solve 2 blocked_grid) = Some False" by code_simp
  then obtain g' where s: "solve 2 blocked_grid = Some (False, g')" by auto
  from solve_failure_restores_grid[OF w s] s w show ?thesis by simp
qed

section \<open>Termination and depth of the recursion\<close>

text \<open>
  Claim C7. On every board of nine rows of nine cells \<open>solve\<close> returns, and the calls
  of \<open>solve\<close> are never nested deeper than the board has empty cells: the bound of the
  outermost call and one more call per empty cell suffices, and any larger bound gives the
  same result. A board has at most 81 empty cells, and every call that \<open>solve\<close>
  makes on itself is on a board with strictly fewer empty cells.
\<close>

theorem solve_terminates_within_depth:
  "wf_grid g \<Longrightarrow>
     (\<exists>res. solve (Suc (count_empty g)) g = Some res)
   \<and> (\<forall>m. count_empty g < m \<longrightarrow> solve m g = solve (Suc (count_empty g)) g)
   \<and> count_empty g \<le> 81
   \<and> (\<forall>n. \<forall>g' \<in> set (solve_calls n g). wf_grid g' \<and> count_empty g' < count_empty g)"
  using solve_returns[of g "Suc (count_empty g)"] solve_bound_enough[of g]
    count_empty_le[of g] solve_calls_fewer[of g]
  by blast

theorem solve_terminates_within_depth_witness:
  "wf_grid blocked_grid
   \<and> (\<exists>res. solve (Suc (count_empty blocked_grid)) blocked_grid = Some res)
   \<and> put blocked_grid 0 0 9 \<in> set (solve_calls 1 blocked_grid)
   \<and> count_empty (put blocked_grid 0 0 9) < count_empty blocked_grid"
proof -
  have w: "wf_grid blocked_grid" by code_simp
  have m: "put blocked_grid 0 0 9 \<in> set (solve_calls 1 blocked_grid)" by code_simp
  from solve_terminates_within_depth[OF w] w m show ?thesis by blast
qed

section \<open>Soundness of the search\<close>

text \<open>
  Claim C1. As stated, for every input board, the claim fails: a board without an empty
  cell is reported as solved whatever it holds, be it nine fives in every row, or a
  board without duplicate that holds a 15. It holds for the boards of the data model that
  pass the gate of \<open>main\<close>: on a board of nine rows of nine cells with entries from 0
  to 9 that \<open>is_valid_grid\<close> accepts, when \<open>solve\<close> returns \<open>True\<close> the board has
  no zero left and every row, column and box holds exactly the digits 1 to 9.
\<close>

theorem solve_sound_on_valid_grids:
  "wf_grid g \<Longrightarrow> digits_only g \<Longrightarrow> is_valid_grid g \<Longrightarrow> solve n g = Some (True, g') \<Longrightarrow>
   (\<forall>r<9. \<forall>c<9. cell g' r c \<noteq> 0) \<and> solved g'"
  by (rule solve_True_solved)

theorem solve_sound_on_valid_grids_witness:
  "wf_grid near_solved \<and> digits_only near_solved \<and> is_valid_grid near_solved
   \<and> solve 3 near_solved = Some (True, solved_board) \<and> solved solved_board"
proof -
  have w: "wf_grid near_solved" by code_simp
  have d: "digits_only near_solved" by code_simp
  have v: "is_valid_grid near_solved" by code_simp
  have s: "solve 3 near_solved = Some (True, solved_board)" by code_simp
  from solve_sound_on_valid_grids[OF w d v s] w d v s show ?thesis by blast
qed

theorem solve_sound_counterexample:
  "wf_grid all_fives \<and> digits_only all_fives
   \<and> solve 1 all_fives = Some (True, all_fives) \<and> \<not> solved all_fives
   \<and> wf_grid off_range_board \<and> is_valid_grid off_range_board
   \<and> solve 1 off_range_board = Some (True, off_range_board) \<and> \<not> solved off_range_board"
proof -
  have w: "wf_grid all_fives" by code_simp
  have d: "digits_only all_fives" by code_simp
  have s: "solve 1 all_fives = Some (True, all_fives)" by code_simp
  have n: "\<not> solved all_fives"
  proof
    assume "solved all_fives"
    then have "mset (row_digits all_fives 0) = mset [1..9]" by (simp add: solved_def)
    then have "set (row_digits all_fives 0) = set [1..9]" by (rule mset_eq_setD)
    moreover have "(1::int) \<in> set [1..9]" by simp
    moreover have "(1::int) \<notin> set (row_digits all_fives 0)" by code_simp
    ultimately show False by simp
  qed
  have w': "wf_grid off_range_board" by code_simp
  have v': "is_valid_grid off_range_board" by code_simp
  have s': "solve 1 off_range_board = Some (True, off_range_board)" by code_simp
  have n': "\<not> solved off_range_board"
  proof
    assume "solved off_range_board"
    then have "mset (row_digits off_range_board 0) = mset [1..9]" by (simp add: solved_def)
    then have "set (row_digits off_range_board 0) = set [1..9]" by (rule mset_eq_setD)
    moreover have "(15::int) \<notin> set [1..9]" by simp
    moreover have "(15::int) \<in> set (row_digits off_range_board 0)" by code_simp
    ultimately show False by simp
  qed
  from w d s n w' v' s' n' show ?thesis by blast
qed

section \<open>Completeness of the search\<close>

text \<open>
  Claim C2. On every board that \<open>is_valid_grid\<close> accepts and that has a completion,
  \<open>solve\<close> returns \<open>True\<close>.
\<close>

theorem solve_complete_on_valid_grids:
  "wf_grid g \<Longrightarrow> is_valid_grid g \<Longrightarrow> completion g s \<Longrightarrow>
   \<exists>g'. solve (Suc (count_empty g)) g = Some (True, g')"
  using solve_complete[of g s "Suc (count_empty g)"] by simp

theorem solve_complete_on_valid_grids_witness:
  "wf_grid near_solved \<and> is_valid_grid near_solved \<and> completion near_solved solved_board
   \<and> (\<exists>g'. solve (Suc (count_empty near_solved)) near_solved = Some (True, g'))"
proof -
  have w: "wf_grid near_solved" by code_simp
  have v: "is_valid_grid near_solved" by code_simp
  have c: "completion near_solved solved_board"
  proof (rule completionI[OF w])
    show "wf_grid solved_board" by code_simp
    show "list_all (list_all (\<lambda>v. 1 \<le> v \<and> v \<le> 9)) solved_board" by code_simp
    show "is_valid_grid solved_board" by code_simp
    show "list_all (\<lambda>p. cell near_solved (fst p) (snd p) = 0
        \<or> cell solved_board (fst p) (snd p) = cell near_solved (fst p) (snd p)) scan_order"
      by code_simp
  qed
  from solve_complete_on_valid_grids[OF w v c] w v c show ?thesis by blast
qed

section \<open>Clue preservation\<close>

text \<open>
  Claim C10. Whatever \<open>solve\<close> returns, every cell that held a nonzero digit before the
  call holds the same digit after it; and each board that a call of \<open>solve\<close> passes to
  a recursive call is its own board with one cell written, a cell that was zero.
\<close>

theorem solve_preserves_clues:
  "wf_grid g \<Longrightarrow> solve n g = Some (b, g') \<Longrightarrow>
     (\<forall>r<9. \<forall>c<9. cell g r c \<noteq> 0 \<longrightarrow> cell g' r c = cell g r c)
   \<and> (\<forall>h \<in> set (solve_calls m g). \<exists>r<9. \<exists>c<9. \<exists>d. cell g r c = 0 \<and> h = put g r c d)"
  using solve_keeps_clues[of g n b g'] solve_calls_shape[of g _ m] by blast

theorem solve_preserves_clues_witness:
  "wf_grid near_solved \<and> solve 3 near_solved = Some (True, solved_board)
   \<and> cell near_solved 0 0 \<noteq> 0 \<and> cell solved_board 0 0 = cell near_solved 0 0"
proof -
  have w: "wf_grid near_solved" by code_simp
  have s: "solve 3 near_solved = Some (True, solved_board)" by code_simp
  have nz: "cell near_solved 0 0 \<noteq> 0" by code_simp
  from solve_preserves_clues[OF w s] nz
  have "cell solved_board 0 0 = cell near_solved 0 0" by simp
  with w s nz show ?thesis by blast
qed

section \<open>Correctness of the validator\<close>

text \<open>
  Claim C4. \<open>is_valid_grid\<close> returns \<open>False\<close> on every board in which some row, column
  or 3x3 box holds a nonzero value twice, and \<open>True\<close> on every board without such a
  duplicate, solvable or not.
\<close>

theorem is_valid_grid_correct:
  "wf_grid g \<Longrightarrow> is_valid_grid g = (\<not> has_duplicate g)"
  by (rule valid_iff_no_duplicate)

theorem is_valid_grid_correct_witness:
  "wf_grid blocked_grid \<and> is_valid_grid blocked_grid \<and> \<not> has_duplicate blocked_grid
   \<and> wf_grid all_fives \<and> \<not> is_valid_grid all_fives \<and> has_duplicate all_fives"
proof -
  have w1: "wf_grid blocked_grid" and v1: "is_valid_grid blocked_grid" by code_simp+
  have w2: "wf_grid all_fives" and v2: "\<not> is_valid_grid all_fives" by code_simp+
  from is_valid_grid_correct[OF w1] is_valid_grid_correct[OF w2] w1 v1 w2 v2
  show ?thesis by blast
qed

section \<open>Contract of the candidate engine\<close>

text \<open>
  Claim C5. For a coordinate \<open>(r, c)\<close> of the board, \<open>candidates\<close> is, when the cell is
  empty, the set of the digits 1 to 9 without the nonzero values of row \<open>r\<close>, of column
  \<open>c\<close> and of the box of \<open>(r, c)\<close>, and the empty set when the cell is not empty.
\<close>

theorem candidates_contract:
  "wf_grid g \<Longrightarrow> r < 9 \<Longrightarrow> c < 9 \<Longrightarrow>
   candidates g r c =
     (if cell g r c = 0 then
        {1..9} - ({cell g r j | j. j < 9 \<and> cell g r j \<noteq> 0}
                \<union> {cell g i c | i. i < 9 \<and> cell g i c \<noteq> 0}
                \<union> {cell g i j | i j. i < 9 \<and> j < 9 \<and> i div 3 = r div 3 \<and> j div 3 = c div 3
                      \<and> cell g i j \<noteq> 0})
      else {})"
  by (rule candidates_eq)

theorem candidates_contract_witness:
  "wf_grid near_solved \<and> cell near_solved 0 2 = 0
   \<and> candidates near_solved 0 2 =
        {1..9} - ({cell near_solved 0 j | j. j < 9 \<and> cell near_solved 0 j \<noteq> 0}
                \<union> {cell near_solved i 2 | i. i < 9 \<and> cell near_solved i 2 \<noteq> 0}
                \<union> {cell near_solved i j | i j. i < 9 \<and> j < 9 \<and> i div 3 = 0 div 3 \<and> j div 3 = 2 div 3
                      \<and> cell near_solved i j \<noteq> 0})
   \<and> candidates near_solved 0 2 = {4}
   \<and> cell near_solved 0 0 \<noteq> 0 \<and> candidates near_solved 0 0 = {}"
proof -
  have w: "wf_grid near_solved" by code_simp
  have e: "cell near_solved 0 2 = 0" by code_simp
  have f: "cell near_solved 0 0 \<noteq> 0" by code_simp
  have k: "candidates near_solved 0 2 = {4}" by code_simp
  from candidates_contract[OF w, of 0 2] candidates_contract[OF w, of 0 0] e f k w
  show ?thesis by simp
qed

section \<open>Tie-break of the selector\<close>

text \<open>
  Claim C6. As stated the claim fails: the selector returns the first cell it meets that
  has a single candidate, without looking at the cells after it, so a later cell may have
  fewer candidates (none). What holds: the selector returns an empty cell with its
  candidates; every empty cell earlier in row-major order has strictly more candidates,
  so that among cells with equally many candidates the first one wins; and the returned
  cell is the first in row-major order among the empty cells with the fewest candidates
  exactly unless it has one candidate and some empty cell has none.
\<close>

theorem find_mrv_cell_returns_first:
  "find_mrv_cell g = Some (r, c, cs) \<Longrightarrow>
     empty_cell g r c \<and> cs = candidates g r c
   \<and> (\<forall>r' c'. empty_cell g r' c' \<and> earlier (r', c') (r, c) \<longrightarrow>
          card cs < card (candidates g r' c'))
   \<and> (first_minimal g r c \<longleftrightarrow>
        \<not> (card cs = 1 \<and> (\<exists>r' c'. empty_cell g r' c' \<and> candidates g r' c' = {})))"
  using find_mrv_cell_first(1,2,3)[of g r c cs] find_mrv_cell_first_minimal[of g r c cs]
  by blast

theorem find_mrv_cell_returns_first_witness:
  "find_mrv_cell empty_board = Some (0, 0, {1..9}) \<and> first_minimal empty_board 0 0"
proof -
  have f: "find_mrv_cell empty_board = Some (0, 0, {1,2,3,4,5,6,7,8,9})" by code_simp
  have s: "{1,2,3,4,5,6,7,8,9} = {1..9::int}" by auto
  have "card {1..9::int} \<noteq> 1" by simp
  with find_mrv_cell_returns_first[OF f[unfolded s]] f s show ?thesis by simp
qed

theorem find_mrv_cell_tie_break_counterexample:
  "is_valid_grid singleton_first_grid
   \<and> find_mrv_cell singleton_first_grid = Some (0, 0, {1})
   \<and> empty_cell singleton_first_grid 8 0 \<and> candidates singleton_first_grid 8 0 = {}
   \<and> empty_cell singleton_first_grid 8 1 \<and> candidates singleton_first_grid 8 1 = {}
   \<and> \<not> first_minimal singleton_first_grid 0 0"
proof -
  have v: "is_valid_grid singleton_first_grid" by code_simp
  have f: "find_mrv_cell singleton_first_grid = Some (0, 0, {1})" by code_simp
  have e: "empty_cell singleton_first_grid 8 0" "empty_cell singleton_first_grid 8 1"
    unfolding empty_cell_def by code_simp+
  have k: "candidates singleton_first_grid 8 0 = {}" "candidates singleton_first_grid 8 1 = {}"
    by code_simp+
  have k0: "candidates singleton_first_grid 0 0 = {1}" by code_simp
  have "\<not> card (candidates singleton_first_grid 0 0) \<le> card (candidates singleton_first_grid 8 0)"
    unfolding k k0 by simp
  with e(1) have "\<not> first_minimal singleton_first_grid 0 0"
    unfolding first_minimal_def by blast
  with v f e k show ?thesis by blast
qed

section \<open>Reading the input\<close>

text \<open>
  Claim C9. As stated the claim fails: a token is converted with \<open>int\<close> and never
  compared with 0 or 9, so a row of nine tokens may hold any integers. What holds:
  whenever \<open>read_grid_from_stdin\<close> returns, its result is \<open>None\<close> or a board of nine
  rows of nine integers, never a partial one; it is a board only if the input has at least
  nine row lines; its entries are from 0 to 9 when no line of the input has nine tokens,
  so that every row comes from nine contiguous digits; and \<open>main\<close> works on the board
  read, or on the built-in puzzle when the result is \<open>None\<close>.
\<close>

theorem read_grid_from_stdin_full_or_none:
  "read_grid_from_stdin inp = Inr res \<Longrightarrow>
     (case res of
        None \<Rightarrow> input_grid res = GRID
      | Some g \<Rightarrow>
          wf_grid g \<and> 9 \<le> length (filter row_line inp) \<and> input_grid res = g
        \<and> (list_all (\<lambda>raw. length (tokens (py_strip raw)) \<noteq> 9) inp \<longrightarrow> digits_only g))"
proof (cases res)
  case None
  then show ?thesis by (simp add: input_grid_def)
next
  case (Some g)
  assume "read_grid_from_stdin inp = Inr res"
  with Some have r: "read_grid_from_stdin inp = Inr (Some g)" by simp
  from read_grid_shape[OF r] input_grid_read[OF r] read_grid_digits[OF r] Some
  show ?thesis by simp
qed

theorem read_grid_from_stdin_full_or_none_witness:
  "read_grid_from_stdin blocked_input = Inr (Some blocked_grid)
   \<and> wf_grid blocked_grid \<and> 9 \<le> length (filter row_line blocked_input)
   \<and> input_grid (Some blocked_grid) = blocked_grid
   \<and> read_grid_from_stdin [''1 2 3''] = Inr None \<and> input_grid None = GRID
   \<and> list_all (\<lambda>raw. length (tokens (py_strip raw)) \<noteq> 9) duplicate_input
   \<and> digits_only ([5,5,0,0,0,0,0,0,0] # replicate 8 [0,0,0,0,0,0,0,0,0])"
proof -
  have n: "read_grid_from_stdin [''1 2 3''] = Inr None" by code_simp
  have t: "list_all (\<lambda>raw. length (tokens (py_strip raw)) \<noteq> 9) duplicate_input"
    by code_simp
  from read_grid_from_stdin_full_or_none[OF read_blocked_input]
    read_grid_from_stdin_full_or_none[OF n]
    read_grid_from_stdin_full_or_none[OF read_duplicate_input] t
    read_blocked_input n
  show ?thesis by simp
qed

theorem read_grid_from_stdin_range_counterexample:
  "read_grid_from_stdin out_of_range_input = Inr (Some (replicate 9 [10,0,0,0,0,0,0,0,0]))
   \<and> \<not> digits_only (replicate 9 [10,0,0,0,0,0,0,0,0])"
proof -
  have "\<not> digits_only (replicate 9 [10,0,0,0,0,0,0,0,0])" by code_simp
  with read_out_of_range_input show ?thesis by blast
qed

section \<open>The exit contract of the main program\<close>

text \<open>
  Claim C8. When the reader returns and \<open>is_valid_grid\<close> rejects the board, \<open>main\<close>
  prints the rejection and exits with status 1, whatever the bound on the calls of
  \<open>solve\<close>, the bound 0 included, under which no call of \<open>solve\<close> returns: \<open>solve\<close>
  is not called. When the board is accepted and \<open>solve\<close> returns \<open>False\<close>, \<open>main\<close>
  prints the board, then that no solution exists, and returns, which is exit status 0.
  With the bound that suffices for \<open>solve\<close>, \<open>main\<close> ends.
\<close>

theorem main_exit_contract:
  "read_grid_from_stdin inp = Inr sg \<Longrightarrow>
     (\<not> is_valid_grid (input_grid sg) \<longrightarrow>
        main 0 inp = Some ([''Invalid puzzle (duplicates in row/col/box).''], SysExit 1)
      \<and> (\<forall>n. main n inp = main 0 inp)
      \<and> exit_status (SysExit 1) \<noteq> 0)
   \<and> (is_valid_grid (input_grid sg) \<and> solve n (input_grid sg) = Some (False, g') \<longrightarrow>
        main n inp = Some ([''Input:''] @ print_grid (input_grid sg)
                             @ [''\<newline>No solution exists.''], Returned)
      \<and> exit_status Returned = 0)
   \<and> (\<exists>res. main (Suc (count_empty (input_grid sg))) inp = Some res)"
  using main_rejects[of inp sg] main_no_solution[of inp sg n g'] main_returns[of inp sg]
  by simp

theorem main_exit_contract_witness:
  "main 0 duplicate_input = Some ([''Invalid puzzle (duplicates in row/col/box).''], SysExit 1)
   \<and> main 2 blocked_input = Some ([''Input:''] @ print_grid blocked_grid
                             @ [''\<newline>No solution exists.''], Returned)
   \<and> main 52 [] = Some ([''Input:''] @ print_grid GRID
                             @ [''\<newline>No solution exists.''], Returned)"
proof -
  let ?d = "[5,5,0,0,0,0,0,0,0] # replicate 8 [0,0,0,0,0,0,0,0,0]"
  have d: "\<not> is_valid_grid (input_grid (Some ?d))" by code_simp
  have i: "input_grid (Some blocked_grid) = blocked_grid" by code_simp
  have v: "is_valid_grid blocked_grid" by code_simp
  have s: "solve 2 blocked_grid = Some (False, blocked_grid)" by code_simp
  from main_exit_contract[OF read_duplicate_input, of 0] d
  have 1: "main 0 duplicate_input = Some ([''Invalid puzzle (duplicates in row/col/box).''], SysExit 1)"
    by blast
  from main_exit_contract[OF read_blocked_input, of 2 blocked_grid] i v s
  have 2: "main 2 blocked_input = Some ([''Input:''] @ print_grid blocked_grid
                             @ [''\<newline>No solution exists.''], Returned)"
    by simp
  have e: "read_grid_from_stdin [] = Inr None" by code_simp
  have i': "input_grid None = GRID" by (simp add: input_grid_def)
  have v': "is_valid_grid GRID" by code_simp
  from main_exit_contract[OF e, of 52 GRID] i' v' solve_GRID
  have 3: "main 52 [] = Some ([''Input:''] @ print_grid GRID
                             @ [''\<newline>No solution exists.''], Returned)"
    by simp
  from 1 2 3 show ?thesis by blast
qed

end
